theory Spec2Isabelle
  imports Main "HOL-Library.Sublist"
begin

section \<open>JavaScript values used by the viewer\<close>

text \<open>
  Text is a list of bytes: the UTF-8 encoding of the JavaScript string. Every character
  the code inspects (brackets, digits, signs, URL delimiters) is ASCII, and an ASCII byte
  never occurs inside a multi-byte sequence, so splitting, searching and comparing bytes
  agrees with the same operation on the string.

  A Number is a double. The component only meets \<open>NaN\<close> and whole Numbers, and the
  model tracks a whole Number exactly as long as a double does: \<open>Num n\<close> is the Number
  \<open>n\<close>, used for integers below \<open>2^53\<close> in magnitude. \<open>Unsafe neg\<close> stands for a Number
  of magnitude \<open>2^53\<close> or more (infinite included), negative when \<open>neg\<close> holds, whose
  value the model does not determine: which double the digits of such a value round to,
  and how that double prints, is left open. The integers of the records below (page
  counts, citation numbers) are JSON integers below \<open>2^53\<close> in magnitude.
\<close>

datatype jsnum = NaN | Num int | Unsafe bool

text \<open>
  \<open>a < b\<close> and \<open>a > b\<close> on Numbers: every comparison with \<open>NaN\<close> is false. A Number
  of magnitude \<open>2^53\<close> or more is below every tracked integer when negative and above
  it when positive. The component compares a page with 1 and with \<open>total_pages\<close> only,
  so the second operand is always a tracked integer; the equation for two untracked
  Numbers is never used and is there to make the function total.
\<close>

fun js_less :: "jsnum \<Rightarrow> jsnum \<Rightarrow> bool" where
  "js_less (Num a) (Num b) = (a < b)"
| "js_less (Unsafe neg) (Num b) = neg"
| "js_less (Num a) (Unsafe neg) = (\<not> neg)"
| "js_less (Unsafe neg) (Unsafe neg') = (neg \<and> \<not> neg')"
| "js_less _ _ = False"

definition js_greater :: "jsnum \<Rightarrow> jsnum \<Rightarrow> bool" where
  "js_greater a b = js_less b a"

section \<open>\<open>parseInt\<close> and the printing of Numbers\<close>

text \<open>
  \<open>\d\<close> of a regular expression, and a decimal digit for \<open>parseInt\<close>: the ASCII
  characters \<open>0\<close> to \<open>9\<close>.
\<close>

definition is_digit :: "char \<Rightarrow> bool" where
  "is_digit c = (48 \<le> (of_char c :: nat) \<and> (of_char c :: nat) \<le> 57)"

text \<open>
  The number of bytes of the white space character at the head of a string, 0 when the
  string does not start with one. White space for \<open>parseInt\<close> is TAB, LF, VT, FF, CR,
  SP, and in UTF-8 the characters U+00A0, U+1680, U+2000 to U+200A, U+2028, U+2029,
  U+202F, U+205F, U+3000 and U+FEFF.
\<close>

definition ws_len :: "string \<Rightarrow> nat" where
  "ws_len s =
     (case map of_char s :: nat list of
        [] \<Rightarrow> 0
      | a # r \<Rightarrow>
          if a \<in> {9, 10, 11, 12, 13, 32} then 1
          else if a = 0xC2 \<and> take 1 r = [0xA0] then 2
          else if a = 0xE1 \<and> take 2 r = [0x9A, 0x80] then 3
          else if a = 0xE2 \<and> take 1 r = [0x80] \<and>
                  (case drop 1 r of [] \<Rightarrow> False
                   | b # _ \<Rightarrow> (0x80 \<le> b \<and> b \<le> 0x8A) \<or> b \<in> {0xA8, 0xA9, 0xAF}) then 3
          else if a = 0xE2 \<and> take 2 r = [0x81, 0x9F] then 3
          else if a = 0xE3 \<and> take 2 r = [0x80, 0x80] then 3
          else if a = 0xEF \<and> take 2 r = [0xBB, 0xBF] then 3
          else 0)"

text \<open>
  Step 2 of \<open>parseInt\<close>: leading white space is dropped.
\<close>

function skip_ws :: "string \<Rightarrow> string" where
  "skip_ws s = (if ws_len s = 0 then s else skip_ws (drop (ws_len s) s))"
  by pat_completeness auto
termination
proof (relation "measure length")
  show "wf (measure length)" by simp
next
  fix s :: string
  assume "ws_len s \<noteq> 0"
  then have "s \<noteq> []" by (auto simp: ws_len_def)
  with \<open>ws_len s \<noteq> 0\<close> show "(drop (ws_len s) s, s) \<in> measure length" by (cases s) auto
qed

declare skip_ws.simps [simp del]

text \<open>
  The value of a character as a digit in radix up to 16; 36 for a character that is no
  digit in any such radix.
\<close>

definition digit_val :: "char \<Rightarrow> nat" where
  "digit_val c =
     (let n = of_char c :: nat in
      if 48 \<le> n \<and> n \<le> 57 then n - 48
      else if 65 \<le> n \<and> n \<le> 70 then n - 55
      else if 97 \<le> n \<and> n \<le> 102 then n - 87
      else 36)"

definition is_radix_digit :: "nat \<Rightarrow> char \<Rightarrow> bool" where
  "is_radix_digit R c = (digit_val c < R)"

text \<open>
  The integer a digit string denotes in radix \<open>R\<close>, most significant digit first.
\<close>

definition digits_value :: "nat \<Rightarrow> string \<Rightarrow> int" where
  "digits_value R ds = foldl (\<lambda>a c. a * int R + int (digit_val c)) 0 ds"

text \<open>
  The Number of a sign and a magnitude: the integer itself below \<open>2^53\<close>, where every
  integer is a double; from \<open>2^53\<close> on, the double nearest to it, which the model leaves
  undetermined.
\<close>

definition to_number :: "bool \<Rightarrow> int \<Rightarrow> jsnum" where
  "to_number neg v = (if v < 2 ^ 53 then Num (if neg then - v else v) else Unsafe neg)"

text \<open>
  \<open>parseInt(str)\<close>, called without a radix: white space is dropped, one sign is read, a
  prefix \<open>0x\<close> or \<open>0X\<close> selects radix 16 and otherwise the radix is 10, and the longest
  run of digits of that radix is the number; text after it is ignored. Without a digit
  the result is \<open>NaN\<close>. Nothing is thrown on any input.
\<close>

definition parseInt :: "string \<Rightarrow> jsnum" where
  "parseInt str =
     (let S = skip_ws str;
          neg = (take 1 S = ''-'');
          S1 = (if take 1 S = ''-'' \<or> take 1 S = ''+'' then drop 1 S else S);
          hex = (take 2 S1 = ''0x'' \<or> take 2 S1 = ''0X'');
          R = (if hex then 16 else 10);
          S2 = (if hex then drop 2 S1 else S1);
          Z = takeWhile (is_radix_digit R) S2
      in if Z = [] then NaN else to_number neg (digits_value R Z))"

text \<open>
  The digit characters, upper case for ten to fifteen.
\<close>

definition digit_char :: "nat \<Rightarrow> char" where
  "digit_char n =
     (if n < 10 then char_of (48 + n) else if n < 16 then char_of (55 + n) else CHR ''F'')"

text \<open>
  The decimal digits of an integer that is not negative, without leading zeros.
\<close>

function show_nat :: "int \<Rightarrow> string" where
  "show_nat n =
     (if n < 10 then [digit_char (nat n)]
      else show_nat (n div 10) @ [digit_char (nat (n mod 10))])"
  by pat_completeness auto
termination
  by (relation "measure nat") auto

declare show_nat.simps [simp del]

text \<open>
  The decimal digits of an integer, with a minus sign when it is negative. A Number that
  is an integer below \<open>2^53\<close> in magnitude prints so, as the text of a JSX child or in a
  template string, and so does an integer in the encoder of links.
\<close>

definition show_int :: "int \<Rightarrow> string" where
  "show_int i = (if i < 0 then CHR ''-'' # show_nat (- i) else show_nat i)"

section \<open>Data model\<close>

text \<open>The records returned by \<open>GET /documents\<close> and \<open>GET /document/{filename}/chunks\<close>.\<close>

record doc =
  filename :: string
  total_pages :: int
  chunk_count :: int

record chunk =
  chunk_id :: string
  page_number :: int
  paragraph_number :: int
  semantic_type :: string
  chunk_text :: string

text \<open>
  The outcome of one \<open>fetch\<close> followed by \<open>response.json()\<close>: the promise rejected
  (network failure, body that is not JSON) with an error message, the response arrived
  with \<open>response.ok\<close> false, or the body was parsed.
\<close>

datatype 'a reply = Rejected string | NotOk | Json 'a

text \<open>The chunk endpoint, as a function of the file name and the page asked for.\<close>

type_synonym chunk_api = "string \<Rightarrow> jsnum \<Rightarrow> chunk list reply"

section \<open>State of the DocumentViewer component\<close>

text \<open>
  The five \<open>useState\<close> cells of \<open>DocumentViewer\<close>, and three logs of its effects on the
  outside: the chunk requests sent, the lines written with \<open>console.error\<close>, and the
  delays of the scroll timers started with \<open>setTimeout\<close>.
\<close>

record viewer =
  document :: "doc option"
  chunks :: "chunk list"
  currentPage :: jsnum
  loading :: bool
  error :: "string option"
  requests :: "(string \<times> jsnum) list"
  console :: "string list"
  timers :: "nat list"

text \<open>The state after the first render: the initial values given to \<open>useState\<close>.\<close>

definition initial :: viewer where
  "initial = \<lparr>document = None, chunks = [], currentPage = Num 1, loading = True,
     error = None, requests = [], console = [], timers = []\<rparr>"

section \<open>Loading the chunks of a page\<close>

text \<open>
  \<open>loadPageChunks\<close> up to its \<open>await fetch(...)\<close>: the request leaves, nothing else
  changes.
\<close>

definition loadPageChunks_send :: "string \<Rightarrow> jsnum \<Rightarrow> viewer \<Rightarrow> viewer" where
  "loadPageChunks_send fname pg s = s\<lparr>requests := requests s @ [(fname, pg)]\<rparr>"

text \<open>
  \<open>loadPageChunks\<close> from the moment its request settles. A parsed body replaces the
  chunks. A rejection, or a response that is not ok (for which the code throws
  \<open>Erreur lors du chargement des chunks\<close>), lands in the \<open>catch\<close>, which writes the
  message to the console and changes no state cell. The continuation holds no reference
  to the page it asked for, and compares nothing with the current page.
\<close>

definition loadPageChunks_settle :: "chunk list reply \<Rightarrow> viewer \<Rightarrow> viewer" where
  "loadPageChunks_settle r s =
     (case r of
        Json cs \<Rightarrow> s\<lparr>chunks := cs\<rparr>
      | NotOk \<Rightarrow> s\<lparr>console := console s @ [''Erreur lors du chargement des chunks'']\<rparr>
      | Rejected m \<Rightarrow> s\<lparr>console := console s @ [m]\<rparr>)"

text \<open>The whole call, when nothing else runs between the request and its answer.\<close>

definition loadPageChunks :: "chunk_api \<Rightarrow> string \<Rightarrow> jsnum \<Rightarrow> viewer \<Rightarrow> viewer" where
  "loadPageChunks api fname pg s =
     loadPageChunks_settle (api fname pg) (loadPageChunks_send fname pg s)"

section \<open>Explicit page navigation\<close>

text \<open>
  The guard of \<open>goToPage\<close>: \<open>page < 1 || page > document?.total_pages\<close>. Without a
  document the right operand is \<open>undefined\<close> and the second comparison is false.
\<close>

definition goToPage_rejects :: "jsnum \<Rightarrow> viewer \<Rightarrow> bool" where
  "goToPage_rejects pg s =
     (js_less pg (Num 1) \<or>
      (case document s of None \<Rightarrow> False | Some d \<Rightarrow> js_greater pg (Num (total_pages d))))"

text \<open>
  \<open>goToPage\<close> up to the \<open>await\<close> inside \<open>loadPageChunks\<close>. A rejected page returns at
  once. Otherwise the page counter is set first and the request sent after; without a
  document, reading \<open>document.filename\<close> throws after the counter was set, and no
  request leaves.
\<close>

definition goToPage_send :: "jsnum \<Rightarrow> viewer \<Rightarrow> viewer" where
  "goToPage_send pg s =
     (if goToPage_rejects pg s then s
      else case document s of
             None \<Rightarrow> s\<lparr>currentPage := pg\<rparr>
           | Some d \<Rightarrow> loadPageChunks_send (filename d) pg (s\<lparr>currentPage := pg\<rparr>))"

text \<open>The whole call, when nothing else runs between the request and its answer.\<close>

definition goToPage :: "chunk_api \<Rightarrow> jsnum \<Rightarrow> viewer \<Rightarrow> viewer" where
  "goToPage api pg s =
     (if goToPage_rejects pg s then s
      else case document s of
             None \<Rightarrow> s\<lparr>currentPage := pg\<rparr>
           | Some d \<Rightarrow> loadPageChunks api (filename d) pg (s\<lparr>currentPage := pg\<rparr>))"

section \<open>Resolving and loading the document\<close>

text \<open>
  \<open>hay.includes(needle)\<close>: the needle occurs in the hay at some position; the empty
  needle occurs in every string.
\<close>

fun js_includes :: "string \<Rightarrow> string \<Rightarrow> bool" where
  "js_includes [] needle = (needle = [])"
| "js_includes (h # hs) needle = (prefix needle (h # hs) \<or> js_includes hs needle)"

text \<open>
  The callback given to \<open>find\<close> in \<open>loadDocument\<close>:
  \<open>d.filename.includes(docId) || docId.includes(d.filename)\<close>.
\<close>

definition matches_docId :: "string \<Rightarrow> doc \<Rightarrow> bool" where
  "matches_docId docId d = (js_includes (filename d) docId \<or> js_includes docId (filename d))"

text \<open>\<open>docData.documents.find(...)\<close>: the first entry of the catalog the callback accepts.\<close>

definition resolveDocument :: "doc list \<Rightarrow> string \<Rightarrow> doc option" where
  "resolveDocument docs docId = find (matches_docId docId) docs"

text \<open>
  The three tiers as the specification words them, for comparison with the code: an entry
  whose identifier equals the target; otherwise the first entry whose filename contains
  the target; otherwise the first entry whose filename is contained in the target.
\<close>

definition resolveDocument_spec :: "doc list \<Rightarrow> string \<Rightarrow> doc option" where
  "resolveDocument_spec docs docId =
     (case find (\<lambda>d. filename d = docId) docs of
        Some d \<Rightarrow> Some d
      | None \<Rightarrow>
          (case find (\<lambda>d. js_includes (filename d) docId) docs of
             Some d \<Rightarrow> Some d
           | None \<Rightarrow> find (\<lambda>d. js_includes docId (filename d)) docs))"

text \<open>
  The answer to \<open>GET /documents\<close>. \<open>CatalogFailed m\<close> stands for every exception raised
  before \<open>find\<close> runs (the fetch rejected, the body was not JSON, the body had no
  \<open>documents\<close> array), \<open>m\<close> being its message. The code does not test \<open>docResponse.ok\<close>.
\<close>

datatype catalog_reply = CatalogFailed string | Catalog "doc list"

text \<open>The message of the error thrown when \<open>find\<close> returns nothing, in UTF-8.\<close>

definition document_non_trouve :: string where
  "document_non_trouve = ''Document non trouv'' @ [CHR 0xC3, CHR 0xA9]"

text \<open>
  \<open>loadDocument\<close>, the body of the first \<open>useEffect\<close>, run for the decoded \<open>docId\<close> and
  \<open>targetPage\<close>. The \<open>catch\<close> stores the message of whatever was thrown in the error
  cell; \<open>finally\<close> clears the loading flag on every path. The target page is handed to
  \<open>setCurrentPage\<close> and to \<open>loadPageChunks\<close> as decoded. A failed chunk fetch is caught
  inside \<open>loadPageChunks\<close> and never reaches this \<open>catch\<close>.
\<close>

definition loadDocument ::
  "catalog_reply \<Rightarrow> chunk_api \<Rightarrow> string \<Rightarrow> jsnum \<Rightarrow> viewer \<Rightarrow> viewer" where
  "loadDocument cat api docId targetPage s =
     (let s1 = s\<lparr>loading := True\<rparr> in
      case cat of
        CatalogFailed m \<Rightarrow> s1\<lparr>error := Some m, loading := False\<rparr>
      | Catalog docs \<Rightarrow>
          (case resolveDocument docs docId of
             None \<Rightarrow> s1\<lparr>error := Some document_non_trouve, loading := False\<rparr>
           | Some d \<Rightarrow>
               (loadPageChunks api (filename d) targetPage
                  (s1\<lparr>document := Some d, currentPage := targetPage\<rparr>))\<lparr>loading := False\<rparr>))"

section \<open>Scrolling to the highlighted chunk\<close>

text \<open>\<open>highlightChunkId && ...\<close>: \<open>null\<close> and the empty string are falsy.\<close>

definition truthy :: "string option \<Rightarrow> bool" where
  "truthy h = (case h of None \<Rightarrow> False | Some v \<Rightarrow> v \<noteq> [])"

text \<open>
  Whether \<open>highlightedChunkRef.current\<close> holds an element once a render of the state is
  committed. \<open>renderChunk\<close> hands the ref to the chunks whose \<open>chunk_id\<close> is strictly
  equal to \<open>highlightChunkId\<close>; the chunk list is mounted only when the component shows
  neither the spinner nor the error view.
\<close>

definition highlight_mounted :: "string option \<Rightarrow> viewer \<Rightarrow> bool" where
  "highlight_mounted h s =
     (\<not> loading s \<and> error s = None \<and>
      (case h of None \<Rightarrow> False | Some v \<Rightarrow> list_ex (\<lambda>c. chunk_id c = v) (chunks s)))"

text \<open>
  The body of the second \<open>useEffect\<close>: with a truthy highlight and a mounted element, one
  timer of 300 ms is started; its callback scrolls the element into view.
\<close>

definition scrollEffect :: "string option \<Rightarrow> viewer \<Rightarrow> viewer" where
  "scrollEffect h s =
     (if truthy h \<and> highlight_mounted h s then s\<lparr>timers := timers s @ [300]\<rparr> else s)"

text \<open>
  A chunk reply settles and the component renders again. The effect depends on
  \<open>[highlightChunkId, chunks]\<close>; \<open>setChunks(data.chunks)\<close> stores an array parsed afresh
  from the response, never identical to the previous one, so the effect runs after every
  parsed reply. A failed reply sets no state and causes no render.
\<close>

definition settle_and_render :: "string option \<Rightarrow> chunk list reply \<Rightarrow> viewer \<Rightarrow> viewer" where
  "settle_and_render h r s =
     (case r of
        Json cs \<Rightarrow> scrollEffect h (loadPageChunks_settle r s)
      | _ \<Rightarrow> loadPageChunks_settle r s)"

text \<open>\<open>goToPage\<close> followed by the render its reply causes, for the highlight of the link.\<close>

definition goToPage_rendered :: "string option \<Rightarrow> chunk_api \<Rightarrow> jsnum \<Rightarrow> viewer \<Rightarrow> viewer" where
  "goToPage_rendered h api pg s =
     (if goToPage_rejects pg s then s
      else case document s of
             None \<Rightarrow> s\<lparr>currentPage := pg\<rparr>
           | Some d \<Rightarrow>
               settle_and_render h (api (filename d) pg)
                 (loadPageChunks_send (filename d) pg (s\<lparr>currentPage := pg\<rparr>)))"

text \<open>
  \<open>loadDocument\<close> followed by the render it ends with. The chunks are stored while the
  loading flag is still set, and the flag is cleared in the \<open>finally\<close> that runs when
  \<open>loadPageChunks\<close> returns, before the browser gets to render: React, which from
  version 18 on batches the state changes made outside event handlers, applies both
  changes in one render, which shows the chunk list unless the error view is up. The
  effect runs after that render when the chunks were replaced. When the catalog fails,
  no document matches or the chunk fetch fails, the chunks are the same array as before
  and the effect does not run.
\<close>

definition loadDocument_rendered ::
  "string option \<Rightarrow> catalog_reply \<Rightarrow> chunk_api \<Rightarrow> string \<Rightarrow> jsnum \<Rightarrow> viewer \<Rightarrow> viewer" where
  "loadDocument_rendered h cat api docId targetPage s =
     (case cat of
        CatalogFailed m \<Rightarrow> loadDocument cat api docId targetPage s
      | Catalog docs \<Rightarrow>
          (case resolveDocument docs docId of
             None \<Rightarrow> loadDocument cat api docId targetPage s
           | Some d \<Rightarrow>
               (case api (filename d) targetPage of
                  Json cs \<Rightarrow> scrollEffect h (loadDocument cat api docId targetPage s)
                | _ \<Rightarrow> loadDocument cat api docId targetPage s)))"

section \<open>Decoding the deep link\<close>

text \<open>
  \<open>useSearchParams\<close> hands the component the query as a list of name and value pairs;
  \<open>searchParams.get(name)\<close> is the value of the first pair with that name, or \<open>null\<close>.
\<close>

type_synonym search_params = "(string \<times> string) list"

definition sp_get :: "search_params \<Rightarrow> string \<Rightarrow> string option" where
  "sp_get sp name = map_of sp name"

text \<open>
  \<open>v || d\<close> for a string or \<open>null\<close> on the left: \<open>null\<close> and the empty string give
  \<open>d\<close>.
\<close>

definition or_default :: "string option \<Rightarrow> string \<Rightarrow> string" where
  "or_default v d = (case v of None \<Rightarrow> d | Some x \<Rightarrow> if x = [] then d else x)"

text \<open>
  The four values the component decodes on every render, under the names the code gives
  them: \<open>docId\<close> from \<open>useParams\<close>, and lines 28 to 30 of \<open>DocumentViewer.jsx\<close>.
\<close>

record nav_target =
  target_docId :: string
  targetPage :: jsnum
  targetParagraph :: jsnum
  highlightChunkId :: "string option"

definition decodeTarget :: "string \<Rightarrow> search_params \<Rightarrow> nav_target" where
  "decodeTarget d sp =
     \<lparr>target_docId = d,
      targetPage = parseInt (or_default (sp_get sp ''page'') ''1''),
      targetParagraph = parseInt (or_default (sp_get sp ''paragraph'') ''0''),
      highlightChunkId = sp_get sp ''highlight''\<rparr>"

section \<open>The canonical link\<close>

text \<open>
  Modelled from the spec: the encoder of deep links is not part of the sources at hand
  (the \<open>deep_link\<close> of a citation arrives ready-made in the query response). Following
  the specification of the codec, identifiers are percent-encoded: every byte outside
  letters, digits and \<open>- . _ ~\<close> becomes \<open>%\<close> and two hexadecimal digits.
\<close>

definition unreserved :: "char \<Rightarrow> bool" where
  "unreserved c =
     (let n = of_char c :: nat in
      (48 \<le> n \<and> n \<le> 57) \<or> (65 \<le> n \<and> n \<le> 90) \<or> (97 \<le> n \<and> n \<le> 122) \<or>
      c = CHR ''-'' \<or> c = CHR ''.'' \<or> c = CHR ''_'' \<or> c = CHR ''~'')"

definition percent_encode_char :: "char \<Rightarrow> string" where
  "percent_encode_char c =
     (if unreserved c then [c]
      else [CHR ''%'', digit_char (of_char c div 16), digit_char (of_char c mod 16)])"

definition percent_encode :: "string \<Rightarrow> string" where
  "percent_encode s = concat (map percent_encode_char s)"

text \<open>
  Modelled from the spec: the Navigation Target of the data model, as the encoder
  receives it: a document identifier, an integer page, an integer paragraph, and a
  highlight that is a chunk identifier or \<open>null\<close>.
\<close>

record link_target =
  document_id :: string
  page_no :: int
  paragraph_no :: int
  highlight_chunk_id :: "string option"

text \<open>
  Modelled from the spec: the canonical link has the shape
  \<open>/viewer/{document_id}?page={int}&paragraph={int}&highlight={chunk_id}\<close>; the integers
  are written with all their digits, and the highlight is left out when it is \<open>null\<close>.
\<close>

definition encode_link :: "link_target \<Rightarrow> string" where
  "encode_link t =
     ''/viewer/'' @ percent_encode (document_id t) @
     ''?page='' @ show_int (page_no t) @
     ''&paragraph='' @ show_int (paragraph_no t) @
     (case highlight_chunk_id t of None \<Rightarrow> [] | Some h \<Rightarrow> ''&highlight='' @ percent_encode h)"

text \<open>
  The values the component holds when it has decoded exactly the given target.
\<close>

definition decoded_as :: "link_target \<Rightarrow> nav_target" where
  "decoded_as t =
     \<lparr>target_docId = document_id t, targetPage = Num (page_no t),
      targetParagraph = Num (paragraph_no t), highlightChunkId = highlight_chunk_id t\<rparr>"

text \<open>
  Modelled from the spec: before the component runs, the router and \<open>URLSearchParams\<close>
  (library code, not part of the sources at hand) split the link. The specification
  says the document identifier is percent-decoded before use. An escape is \<open>%\<close> and two
  hexadecimal digits; a \<open>%\<close> not followed by two such digits stays as it is.
\<close>

fun percent_decode :: "string \<Rightarrow> string" where
  "percent_decode (c # h1 # h2 # r) =
     (if c = CHR ''%'' \<and> digit_val h1 < 16 \<and> digit_val h2 < 16
      then char_of (16 * digit_val h1 + digit_val h2) # percent_decode r
      else c # percent_decode (h1 # h2 # r))"
| "percent_decode (c # cs) = c # percent_decode cs"
| "percent_decode [] = []"

text \<open>
  Modelled from the spec: the query is cut at every \<open>&\<close>, empty pieces are dropped, and
  each piece is cut at its first \<open>=\<close>; in names and values \<open>+\<close> stands for a space and
  escapes are decoded.
\<close>

definition plus_to_space :: "string \<Rightarrow> string" where
  "plus_to_space s = map (\<lambda>c. if c = CHR ''+'' then CHR '' '' else c) s"

fun split_on :: "char \<Rightarrow> string \<Rightarrow> string list" where
  "split_on sep [] = [[]]"
| "split_on sep (c # cs) =
     (if c = sep then [] # split_on sep cs
      else (case split_on sep cs of p # ps \<Rightarrow> (c # p) # ps | [] \<Rightarrow> [[c]]))"

definition parse_pair :: "string \<Rightarrow> string \<times> string" where
  "parse_pair p =
     (percent_decode (plus_to_space (takeWhile (\<lambda>c. c \<noteq> CHR ''='') p)),
      percent_decode (plus_to_space (drop 1 (dropWhile (\<lambda>c. c \<noteq> CHR ''='') p))))"

definition parse_query :: "string \<Rightarrow> search_params" where
  "parse_query q = map parse_pair (filter (\<lambda>p. p \<noteq> []) (split_on CHR ''&'' q))"

text \<open>
  Modelled from the spec: a link is decoded when its path is \<open>/viewer/\<close> followed by
  one non-empty segment (the route \<open>/viewer/:docId\<close>); the fragment after \<open>#\<close> is not
  part of the path or the query. The decoded identifier and the parsed query then go
  through \<open>decodeTarget\<close>, which is the code of the component.
\<close>

definition decode_link :: "string \<Rightarrow> nav_target option" where
  "decode_link url =
     (let u = takeWhile (\<lambda>c. c \<noteq> CHR ''#'') url;
          path = takeWhile (\<lambda>c. c \<noteq> CHR ''?'') u;
          query = drop 1 (dropWhile (\<lambda>c. c \<noteq> CHR ''?'') u);
          seg = drop 8 path
      in if take 8 path = ''/viewer/'' \<and> seg \<noteq> [] \<and> CHR ''/'' \<notin> set seg
         then Some (decodeTarget (percent_decode seg) (parse_query query))
         else None)"

text \<open>
  The characters that delimit the parts of a link, and \<open>+\<close>, which stands for a space
  in a query.
\<close>

definition link_delimiter :: "char \<Rightarrow> bool" where
  "link_delimiter c = (c \<in> set ''#?/&=+'')"

section \<open>Citation markers in the answer\<close>

text \<open>
  A citation of the query response. The similarity score, a fraction, plays no part in
  resolving markers and is left out. The citation number is an integer below \<open>2^53\<close> in
  magnitude, a Number that holds it exactly; the theorems on markers state this bound.
\<close>

record citation =
  citation_number :: int
  cited_chunk_id :: string
  cited_filename :: string
  cited_page_number :: int
  cited_paragraph_number :: int
  text_preview :: string
  deep_link :: string
  is_default :: bool

text \<open>
  A match of \<open>\[\d+\]\<close> at the head of a string: an opening bracket, one or more
  digits, a closing bracket. The result is the digits and the text after the match. The
  greedy digit run is followed by a non-digit or the end, so a shorter run cannot match
  either.
\<close>

definition marker_at :: "string \<Rightarrow> (string \<times> string) option" where
  "marker_at s =
     (case s of
        [] \<Rightarrow> None
      | c # cs \<Rightarrow>
          if c = CHR ''['' \<and> takeWhile is_digit cs \<noteq> [] \<and>
             take 1 (dropWhile is_digit cs) = '']''
          then Some (takeWhile is_digit cs, drop 1 (dropWhile is_digit cs))
          else None)"

text \<open>The text of a match with the given digits.\<close>

definition marker :: "string \<Rightarrow> string" where
  "marker ds = CHR ''['' # ds @ '']''"

text \<open>
  \<open>answer.split(/(\[\d+\])/g)\<close>: the text is scanned from the left; each match closes
  the current literal piece and is itself put in the result (the pattern is a capture
  group), and the scan goes on after the match. The result alternates literal pieces
  and markers, and starts and ends with a literal piece, which may be empty. The first
  argument is the literal piece collected so far.
\<close>

function split_markers :: "string \<Rightarrow> string \<Rightarrow> string list" where
  "split_markers lit [] = [lit]"
| "split_markers lit (c # cs) =
     (case marker_at (c # cs) of
        Some (ds, rest) \<Rightarrow> lit # marker ds # split_markers [] rest
      | None \<Rightarrow> split_markers (lit @ [c]) cs)"
  by pat_completeness auto
termination
proof (relation "measure (\<lambda>(lit, s). length s)")
  show "wf (measure (\<lambda>(lit, s). length s))" by simp
next
  fix lit :: string and c cs x2 ds rest
  assume "marker_at (c # cs) = Some x2" and "(ds, rest) = x2"
  then have "rest = drop 1 (dropWhile is_digit cs)"
    by (auto simp: marker_at_def split: if_splits)
  moreover have "length (dropWhile is_digit cs) \<le> length cs"
    by (rule length_dropWhile_le)
  ultimately have "length rest \<le> length cs" by simp
  then show "(([], rest), lit, c # cs) \<in> measure (\<lambda>(lit, s). length s)" by simp
next
  fix lit :: string and c cs
  show "((lit @ [c], cs), lit, c # cs) \<in> measure (\<lambda>(lit, s). length s)" by simp
qed

declare split_markers.simps [simp del]

text \<open>
  \<open>part.match(/\[(\d+)\]/)\<close>: the leftmost match in the part; the result is its first
  group, the digits.
\<close>

fun search_marker :: "string \<Rightarrow> string option" where
  "search_marker [] = None"
| "search_marker (c # cs) =
     (case marker_at (c # cs) of Some (ds, rest) \<Rightarrow> Some ds | None \<Rightarrow> search_marker cs)"

text \<open>
  The elements \<open>renderAnswerWithLinks\<close> returns: a \<open>span\<close> holding a part of the text,
  or an \<open>a\<close> element for a citation, whose text is the parsed number in brackets. The
  parsed number of a link is strictly equal to a citation number, so it is an integer
  below \<open>2^53\<close> in magnitude.
\<close>

datatype segment = Span string | Anchor citation int

text \<open>
  The callback of \<open>parts.map\<close>. A part with a match whose number, parsed with
  \<open>parseInt\<close>, is strictly equal to the \<open>citation_number\<close> of some citation becomes a
  link to the first such citation; every other part becomes a \<open>span\<close> of the part. The
  digits of a match never parse to \<open>NaN\<close>. When they parse to a Number of magnitude
  \<open>2^53\<close> or more, no citation number, being below \<open>2^53\<close>, is strictly equal to it.
\<close>

definition renderPart :: "citation list \<Rightarrow> string \<Rightarrow> segment" where
  "renderPart citations part =
     (case search_marker part of
        Some ds \<Rightarrow>
          (case parseInt ds of
             Num citationNumber \<Rightarrow>
               (case find (\<lambda>c. citation_number c = citationNumber) citations of
                  Some citation \<Rightarrow> Anchor citation citationNumber
                | None \<Rightarrow> Span part)
           | _ \<Rightarrow> Span part)
      | None \<Rightarrow> Span part)"

text \<open>
  Lines 91 to 117: the answer is split and the callback is mapped over the parts.
\<close>

definition renderParts :: "string \<Rightarrow> citation list \<Rightarrow> segment list" where
  "renderParts answer citations = map (renderPart citations) (split_markers [] answer)"

text \<open>
  \<open>renderAnswerWithLinks\<close>: \<open>null\<close> for an empty answer (\<open>if (!answer) return null\<close>),
  else the mapped parts.
\<close>

definition renderAnswerWithLinks :: "string \<Rightarrow> citation list \<Rightarrow> segment list option" where
  "renderAnswerWithLinks answer citations =
     (if answer = [] then None else Some (renderParts answer citations))"

text \<open>
  The text an element shows: the part for a \<open>span\<close>; for a link the JSX children
  \<open>[\<close>, the parsed number, \<open>]\<close>. The number of a link, an integer below \<open>2^53\<close>
  in magnitude, is shown as its decimal digits.
\<close>

definition displayed :: "segment \<Rightarrow> string" where
  "displayed seg =
     (case seg of Span s \<Rightarrow> s | Anchor c n \<Rightarrow> ''['' @ show_int n @ '']'')"

text \<open>
  Digits written with a leading zero: a zero followed by at least one more digit.
\<close>

definition padded :: "string \<Rightarrow> bool" where
  "padded ds = (case ds of a # b # r \<Rightarrow> a = CHR ''0'' | _ \<Rightarrow> False)"

text \<open>
  Whether some marker of the text is written with a leading zero and resolves to a
  citation: at some position of the text the pattern matches, the digits of the match
  are padded, and the part made of the match becomes a link.
\<close>

fun padded_link :: "citation list \<Rightarrow> string \<Rightarrow> bool" where
  "padded_link citations [] = False"
| "padded_link citations (c # cs) =
     ((case marker_at (c # cs) of
         Some (ds, rest) \<Rightarrow>
           padded ds \<and> (case renderPart citations (marker ds) of
                         Anchor citation n \<Rightarrow> True | Span s \<Rightarrow> False)
       | None \<Rightarrow> False) \<or>
      padded_link citations cs)"

section \<open>Concrete data for the examples\<close>

definition policy_doc :: doc where
  "policy_doc = \<lparr>filename = ''policy.pdf'', total_pages = 3, chunk_count = 4\<rparr>"

definition chunk_c1 :: chunk where
  "chunk_c1 = \<lparr>chunk_id = ''c1'', page_number = 1, paragraph_number = 0,
     semantic_type = ''heading'', chunk_text = ''Refund policy''\<rparr>"

definition chunk_c9 :: chunk where
  "chunk_c9 = \<lparr>chunk_id = ''c9'', page_number = 2, paragraph_number = 3,
     semantic_type = ''paragraph'', chunk_text = ''Refunds allowed within 30 days''\<rparr>"

definition chunk_c12 :: chunk where
  "chunk_c12 = \<lparr>chunk_id = ''c12'', page_number = 3, paragraph_number = 1,
     semantic_type = ''paragraph'', chunk_text = ''Contact support''\<rparr>"

text \<open>A server holding the three pages of \<open>policy.pdf\<close>; any other request is not ok.\<close>

definition policy_api :: chunk_api where
  "policy_api fname pg =
     (if fname = ''policy.pdf'' \<and> pg = Num 1 then Json [chunk_c1]
      else if fname = ''policy.pdf'' \<and> pg = Num 2 then Json [chunk_c9]
      else if fname = ''policy.pdf'' \<and> pg = Num 3 then Json [chunk_c12]
      else NotOk)"

definition annex_doc :: doc where
  "annex_doc = \<lparr>filename = ''annex_policy.pdf'', total_pages = 2, chunk_count = 2\<rparr>"

definition policy_v2_doc :: doc where
  "policy_v2_doc = \<lparr>filename = ''policy_v2.pdf'', total_pages = 5, chunk_count = 9\<rparr>"

definition cit1 :: citation where
  "cit1 = \<lparr>citation_number = 1, cited_chunk_id = ''c9'', cited_filename = ''policy.pdf'',
     cited_page_number = 2, cited_paragraph_number = 3,
     text_preview = ''Refunds allowed'',
     deep_link = ''/viewer/policy.pdf?page=2&paragraph=3&highlight=c9'', is_default = False\<rparr>"

text \<open>
  The target of the citation of the specification's scenario, for a file name with a
  space.
\<close>

definition cited_target :: link_target where
  "cited_target = \<lparr>document_id = ''my policy.pdf'', page_no = 2, paragraph_no = 3,
     highlight_chunk_id = Some ''c9''\<rparr>"

text \<open>A target whose page, \<open>2^53 + 1\<close>, is an integer that no Number holds.\<close>

definition far_target :: link_target where
  "far_target = \<lparr>document_id = ''policy.pdf'', page_no = 9007199254740993, paragraph_no = 0,
     highlight_chunk_id = None\<rparr>"

text \<open>The viewer that has loaded page 2 of \<open>policy.pdf\<close> from a deep link.\<close>

definition ready_p2 :: viewer where
  "ready_p2 = \<lparr>document = Some policy_doc, chunks = [chunk_c9], currentPage = Num 2,
     loading = False, error = None, requests = [(''policy.pdf'', Num 2)], console = [],
     timers = [300]\<rparr>"

text \<open>A server whose chunk endpoint is down.\<close>

definition down_api :: chunk_api where
  "down_api fname pg = Rejected ''Failed to fetch''"

text \<open>The viewer showing page 1 of \<open>policy.pdf\<close>.\<close>

definition ready_p1 :: viewer where
  "ready_p1 = \<lparr>document = Some policy_doc, chunks = [chunk_c1], currentPage = Num 1,
     loading = False, error = None, requests = [(''policy.pdf'', Num 1)], console = [],
     timers = []\<rparr>"

section \<open>Properties of \<open>parseInt\<close> and of the decoding\<close>

text \<open>
  Printing an integer gives a non-empty string of digits, after a minus sign when the
  integer is negative, that denotes the integer. \<open>parseInt\<close> reads a string of digits,
  with or without a sign, as the integer it denotes when that integer is below \<open>2^53\<close>,
  and as an untracked Number otherwise.
\<close>

lemma of_char_digit_char:
  "(of_char (digit_char n) :: nat) = (if n < 10 then 48 + n else if n < 16 then 55 + n else 70)"
  by (simp add: digit_char_def of_char_of)

lemma digit_val_digit_char: "n < 16 \<Longrightarrow> digit_val (digit_char n) = n"
  by (simp add: digit_val_def of_char_digit_char)

lemma is_digit_digit_char: "n < 10 \<Longrightarrow> is_digit (digit_char n)"
  by (simp add: is_digit_def of_char_digit_char)

lemma show_nat_small: "n < 10 \<Longrightarrow> show_nat n = [digit_char (nat n)]"
  by (subst show_nat.simps) simp

lemma show_nat_big:
  "\<not> n < 10 \<Longrightarrow> show_nat n = show_nat (n div 10) @ [digit_char (nat (n mod 10))]"
  by (subst show_nat.simps) simp

lemma show_nat_digits: "list_all is_digit (show_nat n) \<and> show_nat n \<noteq> []"
proof (induction n rule: show_nat.induct)
  case (1 n)
  show ?case
  proof (cases "n < 10")
    case True
    then have "nat n < 10" by simp
    with True show ?thesis by (simp add: show_nat_small is_digit_digit_char)
  next
    case False
    with 1 have "list_all is_digit (show_nat (n div 10))" by simp
    moreover have "nat (n mod 10) < 10" by simp
    then have "is_digit (digit_char (nat (n mod 10)))" by (rule is_digit_digit_char)
    ultimately show ?thesis using False by (simp add: show_nat_big)
  qed
qed

lemma digits_value_snoc:
  "digits_value R (ds @ [d]) = digits_value R ds * int R + int (digit_val d)"
  by (simp add: digits_value_def)

lemma digits_value_show_nat: "0 \<le> n \<Longrightarrow> digits_value 10 (show_nat n) = n"
proof (induction n rule: show_nat.induct)
  case (1 n)
  show ?case
  proof (cases "n < 10")
    case True
    with "1.prems" have "nat n < 16" by simp
    then have "digit_val (digit_char (nat n)) = nat n" by (rule digit_val_digit_char)
    with True "1.prems" show ?thesis by (simp add: show_nat_small digits_value_def)
  next
    case False
    with 1 have ih: "digits_value 10 (show_nat (n div 10)) = n div 10" by simp
    have "nat (n mod 10) < 16" by simp
    then have "digit_val (digit_char (nat (n mod 10))) = nat (n mod 10)"
      by (rule digit_val_digit_char)
    with ih False show ?thesis by (simp add: show_nat_big digits_value_snoc)
  qed
qed

lemma is_radix_digit10: "is_radix_digit 10 c \<longleftrightarrow> is_digit c"
  by (auto simp: is_digit_def is_radix_digit_def digit_val_def Let_def split: if_splits)

lemma ws_len_digit: "is_digit c \<Longrightarrow> ws_len (c # cs) = 0"
  by (auto simp: ws_len_def is_digit_def)

lemma skip_ws_none: "ws_len s = 0 \<Longrightarrow> skip_ws s = s"
  by (subst skip_ws.simps) simp

lemma skip_ws_minus: "skip_ws (CHR ''-'' # cs) = CHR ''-'' # cs"
  by (rule skip_ws_none) (simp add: ws_len_def)

lemma takeWhile_all: "list_all P xs \<Longrightarrow> takeWhile P xs = xs"
  by (induction xs) auto

lemma takeWhile_stop: "\<forall>x\<in>set xs. P x \<Longrightarrow> \<not> P y \<Longrightarrow> takeWhile P (xs @ y # ys) = xs"
  by (induction xs) auto

lemma dropWhile_stop: "\<forall>x\<in>set xs. P x \<Longrightarrow> \<not> P y \<Longrightarrow> dropWhile P (xs @ y # ys) = y # ys"
  by (induction xs) auto

text \<open>
  What \<open>parseInt\<close> makes of a string that starts with digits: the digits are followed
  by nothing, or by a character that is no digit and, so that no hexadecimal prefix
  arises, is neither \<open>x\<close> nor \<open>X\<close>.
\<close>

lemma digits_prefix_no_hex:
  assumes "ds \<noteq> []" and "list_all is_digit ds"
    and "rest = [] \<or> (hd rest \<noteq> CHR ''x'' \<and> hd rest \<noteq> CHR ''X'')"
  shows "(take 2 (ds @ rest) = ''0x'') = False" and "(take 2 (ds @ rest) = ''0X'') = False"
proof -
  from assms(1) obtain a as where ds: "ds = a # as" by (cases ds) auto
  have "take 2 (ds @ rest) \<noteq> ''0x'' \<and> take 2 (ds @ rest) \<noteq> ''0X''"
  proof (cases as)
    case Nil
    show ?thesis
    proof (cases rest)
      case Nil
      with \<open>as = []\<close> ds show ?thesis by simp
    next
      case (Cons b bs)
      with assms(3) have "b \<noteq> CHR ''x'' \<and> b \<noteq> CHR ''X''" by simp
      with Cons \<open>as = []\<close> ds show ?thesis by simp
    qed
  next
    case (Cons b bs)
    with ds assms(2) have "is_digit b" by simp
    then have "b \<noteq> CHR ''x'' \<and> b \<noteq> CHR ''X''" by (auto simp: is_digit_def)
    with Cons ds show ?thesis by simp
  qed
  then show "(take 2 (ds @ rest) = ''0x'') = False" and "(take 2 (ds @ rest) = ''0X'') = False"
    by simp_all
qed

lemma digits_prefix_run:
  assumes "list_all is_digit ds" and "rest = [] \<or> \<not> is_digit (hd rest)"
  shows "takeWhile (is_radix_digit 10) (ds @ rest) = ds"
proof (cases rest)
  case Nil
  from assms(1) have "list_all (is_radix_digit 10) ds" by (simp add: list_all_iff is_radix_digit10)
  with Nil show ?thesis by (simp add: takeWhile_all)
next
  case (Cons b bs)
  with assms(2) have "\<not> is_radix_digit 10 b" by (simp add: is_radix_digit10)
  moreover from assms(1) have "\<forall>x\<in>set ds. is_radix_digit 10 x"
    by (simp add: list_all_iff is_radix_digit10)
  ultimately show ?thesis unfolding Cons by (intro takeWhile_stop) auto
qed

lemma parseInt_digits_then:
  assumes "ds \<noteq> []" and "list_all is_digit ds"
    and "rest = [] \<or> (\<not> is_digit (hd rest) \<and> hd rest \<noteq> CHR ''x'' \<and> hd rest \<noteq> CHR ''X'')"
  shows "parseInt (ds @ rest) = to_number False (digits_value 10 ds)"
    and "parseInt (CHR ''-'' # ds @ rest) = to_number True (digits_value 10 ds)"
proof -
  from assms(1,2) obtain c cs where ds: "ds = c # cs" and c: "is_digit c" by (cases ds) auto
  have sk: "skip_ws (ds @ rest) = ds @ rest" using ds c by (simp add: skip_ws_none ws_len_digit)
  have sg1: "(take 1 (ds @ rest) = ''-'') = False" using ds c by (auto simp: is_digit_def)
  have sg2: "(take 1 (ds @ rest) = ''+'') = False" using ds c by (auto simp: is_digit_def)
  from assms(3) have h: "rest = [] \<or> (hd rest \<noteq> CHR ''x'' \<and> hd rest \<noteq> CHR ''X'')" by blast
  note hx = digits_prefix_no_hex [OF assms(1,2) h]
  from assms(3) have r: "rest = [] \<or> \<not> is_digit (hd rest)" by blast
  note tw = digits_prefix_run [OF assms(2) r]
  have ne: "(ds = []) = False" using assms(1) by simp
  show "parseInt (ds @ rest) = to_number False (digits_value 10 ds)"
    unfolding parseInt_def Let_def
    by (simp only: sk sg1 sg2 hx tw ne if_False simp_thms)
  have m1: "(take 1 (CHR ''-'' # ds @ rest) = ''-'') = True" by simp
  have dr: "drop 1 (CHR ''-'' # ds @ rest) = ds @ rest" by simp
  show "parseInt (CHR ''-'' # ds @ rest) = to_number True (digits_value 10 ds)"
    unfolding parseInt_def Let_def
    by (simp only: skip_ws_minus m1 dr hx tw ne if_False if_True simp_thms)
qed

lemma parseInt_digits:
  assumes "ds \<noteq> []" and "list_all is_digit ds"
  shows "parseInt ds = to_number False (digits_value 10 ds)"
  using parseInt_digits_then(1) [OF assms, of "[]"] by simp

lemma parseInt_show_int_then:
  assumes "rest = [] \<or> (\<not> is_digit (hd rest) \<and> hd rest \<noteq> CHR ''x'' \<and> hd rest \<noteq> CHR ''X'')"
  shows "parseInt (show_int n @ rest) = to_number (n < 0) \<bar>n\<bar>"
proof (cases "n < 0")
  case True
  from show_nat_digits [of "- n"] have d: "show_nat (- n) \<noteq> []" "list_all is_digit (show_nat (- n))"
    by simp_all
  from True have "digits_value 10 (show_nat (- n)) = - n" by (simp add: digits_value_show_nat)
  with parseInt_digits_then(2) [OF d assms] True show ?thesis by (simp add: show_int_def)
next
  case False
  from show_nat_digits [of n] have d: "show_nat n \<noteq> []" "list_all is_digit (show_nat n)"
    by simp_all
  from False have "digits_value 10 (show_nat n) = n" by (simp add: digits_value_show_nat)
  with parseInt_digits_then(1) [OF d assms] False show ?thesis by (simp add: show_int_def)
qed

lemma parseInt_show_int: "\<bar>n\<bar> < 2 ^ 53 \<Longrightarrow> parseInt (show_int n) = Num n"
  using parseInt_show_int_then [of "[]" n] by (auto simp: to_number_def)

lemma parseInt_show_int_unsafe: "2 ^ 53 \<le> \<bar>n\<bar> \<Longrightarrow> parseInt (show_int n) = Unsafe (n < 0)"
  using parseInt_show_int_then [of "[]" n] by (auto simp: to_number_def)

lemma parseInt_no_number:
  assumes "ws_len (c # cs) = 0" and "c \<noteq> CHR ''-''" and "c \<noteq> CHR ''+''" and "\<not> is_digit c"
  shows "parseInt (c # cs) = NaN"
proof -
  have sk: "skip_ws (c # cs) = c # cs" using assms(1) by (rule skip_ws_none)
  have sg1: "(take 1 (c # cs) = ''-'') = False" using assms(2) by simp
  have sg2: "(take 1 (c # cs) = ''+'') = False" using assms(3) by simp
  from assms(4) have "c \<noteq> CHR ''0''" by (auto simp: is_digit_def)
  then have hx: "(take 2 (c # cs) = ''0x'') = False" "(take 2 (c # cs) = ''0X'') = False"
    by (cases cs; simp)+
  have tw: "takeWhile (is_radix_digit 10) (c # cs) = []"
    using assms(4) by (simp add: is_radix_digit10)
  show ?thesis
    unfolding parseInt_def Let_def
    by (simp only: sk sg1 sg2 hx tw if_False if_True simp_thms)
qed

lemma show_int_nonempty: "show_int n \<noteq> []"
  using show_nat_digits [of n] show_nat_digits [of "- n"] by (simp add: show_int_def)

text \<open>
  C2, as the code has it. The decoded target carries the document identifier of the
  route and the value of \<open>highlight\<close>, \<open>null\<close> when the parameter is missing. A missing
  or empty \<open>page\<close> gives page 1, a missing or empty \<open>paragraph\<close> gives paragraph 0. A
  value that is a printed integer of magnitude below \<open>2^53\<close> is taken as that integer
  and is not clamped: a zero or negative page stays what it is. A value that starts with
  such an integer, followed by a character that is neither a digit nor \<open>x\<close> nor \<open>X\<close>,
  is read as that integer, and the text after the digits is ignored. A value whose first
  character is neither white space nor a sign nor a digit gives \<open>NaN\<close>, for the page and
  for the paragraph alike. Decoding is a total function: it fails on no input.
\<close>

theorem decodeTarget_defaults_no_clamp:
  "target_docId (decodeTarget d sp) = d \<and>
   highlightChunkId (decodeTarget d sp) = sp_get sp ''highlight'' \<and>
   (sp_get sp ''page'' = None \<longrightarrow> targetPage (decodeTarget d sp) = Num 1) \<and>
   (sp_get sp ''paragraph'' = None \<longrightarrow> targetParagraph (decodeTarget d sp) = Num 0) \<and>
   (sp_get sp ''page'' = Some [] \<longrightarrow> targetPage (decodeTarget d sp) = Num 1) \<and>
   (sp_get sp ''paragraph'' = Some [] \<longrightarrow> targetParagraph (decodeTarget d sp) = Num 0) \<and>
   (sp_get sp ''page'' = Some (show_int n) \<and> \<bar>n\<bar> < 2 ^ 53 \<longrightarrow>
      targetPage (decodeTarget d sp) = Num n) \<and>
   (sp_get sp ''paragraph'' = Some (show_int n) \<and> \<bar>n\<bar> < 2 ^ 53 \<longrightarrow>
      targetParagraph (decodeTarget d sp) = Num n) \<and>
   (sp_get sp ''page'' = Some (show_int n @ c # cs) \<and> \<bar>n\<bar> < 2 ^ 53 \<and>
      \<not> is_digit c \<and> c \<noteq> CHR ''x'' \<and> c \<noteq> CHR ''X'' \<longrightarrow>
      targetPage (decodeTarget d sp) = Num n) \<and>
   (sp_get sp ''paragraph'' = Some (show_int n @ c # cs) \<and> \<bar>n\<bar> < 2 ^ 53 \<and>
      \<not> is_digit c \<and> c \<noteq> CHR ''x'' \<and> c \<noteq> CHR ''X'' \<longrightarrow>
      targetParagraph (decodeTarget d sp) = Num n) \<and>
   (sp_get sp ''page'' = Some (c # cs) \<and> ws_len (c # cs) = 0 \<and>
      c \<noteq> CHR ''-'' \<and> c \<noteq> CHR ''+'' \<and> \<not> is_digit c \<longrightarrow>
      targetPage (decodeTarget d sp) = NaN) \<and>
   (sp_get sp ''paragraph'' = Some (c # cs) \<and> ws_len (c # cs) = 0 \<and>
      c \<noteq> CHR ''-'' \<and> c \<noteq> CHR ''+'' \<and> \<not> is_digit c \<longrightarrow>
      targetParagraph (decodeTarget d sp) = NaN)"
proof -
  have "show_int 1 = ''1''" and "show_int 0 = ''0''"
    by code_simp+
  then have one: "parseInt ''1'' = Num 1" and zero: "parseInt ''0'' = Num 0"
    using parseInt_show_int [of 1] parseInt_show_int [of 0] by simp_all
  have exact: "\<bar>n\<bar> < 2 ^ 53 \<Longrightarrow> parseInt (show_int n) = Num n" by (rule parseInt_show_int)
  have mixed: "\<bar>n\<bar> < 2 ^ 53 \<Longrightarrow> \<not> is_digit c \<Longrightarrow> c \<noteq> CHR ''x'' \<Longrightarrow> c \<noteq> CHR ''X'' \<Longrightarrow>
      parseInt (show_int n @ c # cs) = Num n"
    using parseInt_show_int_then [of "c # cs" n] by (auto simp: to_number_def)
  have none: "ws_len (c # cs) = 0 \<Longrightarrow> c \<noteq> CHR ''-'' \<Longrightarrow> c \<noteq> CHR ''+'' \<Longrightarrow> \<not> is_digit c \<Longrightarrow>
      parseInt (c # cs) = NaN"
    by (rule parseInt_no_number)
  have ne: "show_int n \<noteq> []" by (rule show_int_nonempty)
  show ?thesis
    using one zero exact mixed none ne
    by (simp add: decodeTarget_def or_default_def)
qed

text \<open>
  The theorem at four queries: one with only a highlight, one with page and paragraph
  \<open>-3\<close>, one with \<open>12abc\<close> and one with \<open>abc\<close>.
\<close>

theorem decodeTarget_defaults_no_clamp_witness:
  "sp_get [(''highlight'', ''c9'')] ''page'' = None \<and>
   sp_get [(''highlight'', ''c9'')] ''paragraph'' = None \<and>
   targetPage (decodeTarget ''policy.pdf'' [(''highlight'', ''c9'')]) = Num 1 \<and>
   targetParagraph (decodeTarget ''policy.pdf'' [(''highlight'', ''c9'')]) = Num 0 \<and>
   sp_get [(''page'', ''-3''), (''paragraph'', ''-3'')] ''page'' = Some (show_int (- 3)) \<and>
   sp_get [(''page'', ''-3''), (''paragraph'', ''-3'')] ''paragraph'' = Some (show_int (- 3)) \<and>
   \<bar>- 3 :: int\<bar> < 2 ^ 53 \<and>
   targetPage (decodeTarget ''policy.pdf'' [(''page'', ''-3''), (''paragraph'', ''-3'')]) = Num (- 3) \<and>
   targetParagraph (decodeTarget ''policy.pdf'' [(''page'', ''-3''), (''paragraph'', ''-3'')]) = Num (- 3) \<and>
   sp_get [(''page'', ''12abc''), (''paragraph'', ''12abc'')] ''page''
     = Some (show_int 12 @ CHR ''a'' # ''bc'') \<and>
   sp_get [(''page'', ''12abc''), (''paragraph'', ''12abc'')] ''paragraph''
     = Some (show_int 12 @ CHR ''a'' # ''bc'') \<and>
   \<bar>12 :: int\<bar> < 2 ^ 53 \<and> \<not> is_digit CHR ''a'' \<and> CHR ''a'' \<noteq> CHR ''x'' \<and> CHR ''a'' \<noteq> CHR ''X'' \<and>
   targetPage (decodeTarget ''policy.pdf'' [(''page'', ''12abc''), (''paragraph'', ''12abc'')]) = Num 12 \<and>
   targetParagraph (decodeTarget ''policy.pdf'' [(''page'', ''12abc''), (''paragraph'', ''12abc'')])
     = Num 12 \<and>
   sp_get [(''page'', ''abc''), (''paragraph'', ''abc'')] ''page'' = Some (CHR ''a'' # ''bc'') \<and>
   sp_get [(''page'', ''abc''), (''paragraph'', ''abc'')] ''paragraph'' = Some (CHR ''a'' # ''bc'') \<and>
   ws_len (CHR ''a'' # ''bc'') = 0 \<and> CHR ''a'' \<noteq> CHR ''-'' \<and> CHR ''a'' \<noteq> CHR ''+'' \<and>
   targetPage (decodeTarget ''policy.pdf'' [(''page'', ''abc''), (''paragraph'', ''abc'')]) = NaN \<and>
   targetParagraph (decodeTarget ''policy.pdf'' [(''page'', ''abc''), (''paragraph'', ''abc'')]) = NaN"
proof -
  let ?s1 = "[(''highlight'', ''c9'')]"
  let ?s2 = "[(''page'', ''-3''), (''paragraph'', ''-3'')]"
  let ?s3 = "[(''page'', ''12abc''), (''paragraph'', ''12abc'')]"
  let ?s4 = "[(''page'', ''abc''), (''paragraph'', ''abc'')]"
  note t1 = decodeTarget_defaults_no_clamp [of "''policy.pdf''" ?s1 0 "CHR ''a''" "''bc''"]
  note t2 = decodeTarget_defaults_no_clamp [of "''policy.pdf''" ?s2 "- 3" "CHR ''a''" "''bc''"]
  note t3 = decodeTarget_defaults_no_clamp [of "''policy.pdf''" ?s3 12 "CHR ''a''" "''bc''"]
  note t4 = decodeTarget_defaults_no_clamp [of "''policy.pdf''" ?s4 0 "CHR ''a''" "''bc''"]
  have m3: "show_int (- 3) = ''-3''" and m12: "show_int 12 = ''12''" by code_simp+
  have g1: "sp_get ?s1 ''page'' = None" and g1': "sp_get ?s1 ''paragraph'' = None"
    by (simp_all add: sp_get_def)
  have g2: "sp_get ?s2 ''page'' = Some (show_int (- 3))"
    and g2': "sp_get ?s2 ''paragraph'' = Some (show_int (- 3))"
    by (simp_all add: sp_get_def m3)
  have g3: "sp_get ?s3 ''page'' = Some (show_int 12 @ CHR ''a'' # ''bc'')"
    and g3': "sp_get ?s3 ''paragraph'' = Some (show_int 12 @ CHR ''a'' # ''bc'')"
    by (simp_all add: sp_get_def m12)
  have g4: "sp_get ?s4 ''page'' = Some (CHR ''a'' # ''bc'')"
    and g4': "sp_get ?s4 ''paragraph'' = Some (CHR ''a'' # ''bc'')"
    by (simp_all add: sp_get_def)
  have b3: "\<bar>- 3 :: int\<bar> < 2 ^ 53" and b12: "\<bar>12 :: int\<bar> < 2 ^ 53" by simp_all
  have a1: "\<not> is_digit CHR ''a''" by (simp add: is_digit_def)
  have a2: "CHR ''a'' \<noteq> CHR ''x''" and a3: "CHR ''a'' \<noteq> CHR ''X''"
    and a4: "CHR ''a'' \<noteq> CHR ''-''" and a5: "CHR ''a'' \<noteq> CHR ''+''" by simp_all
  have w: "ws_len (CHR ''a'' # ''bc'') = 0" by (simp add: ws_len_def)
  from t1 g1 have r1: "targetPage (decodeTarget ''policy.pdf'' ?s1) = Num 1" by blast
  from t1 g1' have r1': "targetParagraph (decodeTarget ''policy.pdf'' ?s1) = Num 0" by blast
  from t2 g2 b3 have r2: "targetPage (decodeTarget ''policy.pdf'' ?s2) = Num (- 3)" by blast
  from t2 g2' b3 have r2': "targetParagraph (decodeTarget ''policy.pdf'' ?s2) = Num (- 3)" by blast
  from t3 g3 b12 a1 a2 a3 have r3: "targetPage (decodeTarget ''policy.pdf'' ?s3) = Num 12" by blast
  from t3 g3' b12 a1 a2 a3 have r3': "targetParagraph (decodeTarget ''policy.pdf'' ?s3) = Num 12"
    by blast
  from t4 g4 w a4 a5 a1 have r4: "targetPage (decodeTarget ''policy.pdf'' ?s4) = NaN" by blast
  from t4 g4' w a4 a5 a1 have r4': "targetParagraph (decodeTarget ''policy.pdf'' ?s4) = NaN" by blast
  show ?thesis
    by (intro conjI g1 g1' r1 r1' g2 g2' b3 r2 r2' g3 g3' b12 a1 a2 a3 r3 r3' g4 g4' w a4 a5 r4 r4')
qed

text \<open>
  The scenario of the specification fails on the code: decoding
  \<open>/viewer/policy.pdf?page=0&highlight=c9\<close> gives page 0, not page 1. A negative page
  stays negative, and a non-numeric paragraph gives \<open>NaN\<close>, not 0.
\<close>

theorem decode_page_zero_counterexample:
  "decode_link ''/viewer/policy.pdf?page=0&highlight=c9'' =
     Some \<lparr>target_docId = ''policy.pdf'', targetPage = Num 0, targetParagraph = Num 0,
            highlightChunkId = Some ''c9''\<rparr> \<and>
   decodeTarget ''policy.pdf'' [(''page'', ''0''), (''highlight'', ''c9'')] =
     \<lparr>target_docId = ''policy.pdf'', targetPage = Num 0, targetParagraph = Num 0,
      highlightChunkId = Some ''c9''\<rparr> \<and>
   targetPage (decodeTarget ''policy.pdf'' [(''page'', ''-3'')]) = Num (- 3) \<and>
   targetParagraph (decodeTarget ''policy.pdf'' [(''paragraph'', ''abc'')]) = NaN"
  by code_simp

section \<open>Properties of the canonical link\<close>

text \<open>
  An encoded identifier holds no delimiter, and decoding it gives the identifier back.
  A canonical link therefore splits at the delimiters the encoder wrote, and its query
  parses into the pairs that were encoded.
\<close>

lemma unreserved_not_special: "unreserved c \<Longrightarrow> \<not> link_delimiter c \<and> c \<noteq> CHR ''%''"
  by (auto simp: unreserved_def link_delimiter_def Let_def)

lemma of_char_link_delimiter:
  "link_delimiter c \<or> c = CHR ''%'' \<Longrightarrow> (of_char c :: nat) \<in> {35, 37, 38, 43, 47, 61, 63}"
  by (auto simp: link_delimiter_def)

lemma digit_char_not_special: "\<not> link_delimiter (digit_char n) \<and> digit_char n \<noteq> CHR ''%''"
  using of_char_link_delimiter [of "digit_char n"]
  by (auto simp: of_char_digit_char split: if_splits)

lemma percent_encode_char_safe:
  assumes "c' \<in> set (percent_encode_char c)"
  shows "\<not> link_delimiter c'"
proof (cases "unreserved c")
  case True
  with assms have "c' = c" by (simp add: percent_encode_char_def)
  with True show ?thesis by (simp add: unreserved_not_special)
next
  case False
  with assms have "c' = CHR ''%'' \<or> c' = digit_char (of_char c div 16) \<or>
      c' = digit_char (of_char c mod 16)"
    by (simp add: percent_encode_char_def)
  moreover have "\<not> link_delimiter CHR ''%''" by (simp add: link_delimiter_def)
  ultimately show ?thesis using digit_char_not_special by blast
qed

lemma percent_encode_safe: "c' \<in> set (percent_encode s) \<Longrightarrow> \<not> link_delimiter c'"
  by (auto simp: percent_encode_def dest: percent_encode_char_safe)

lemma percent_encode_nonempty: "s \<noteq> [] \<Longrightarrow> percent_encode s \<noteq> []"
  by (cases s) (auto simp: percent_encode_def percent_encode_char_def)

lemma percent_decode_other: "c \<noteq> CHR ''%'' \<Longrightarrow> percent_decode (c # cs) = c # percent_decode cs"
proof (cases cs)
  case Nil
  then show ?thesis by simp
next
  case (Cons a as)
  assume "c \<noteq> CHR ''%''"
  with Cons show ?thesis by (cases as) simp_all
qed

lemma percent_decode_plain: "CHR ''%'' \<notin> set s \<Longrightarrow> percent_decode s = s"
  by (induction s) (auto simp: percent_decode_other)

lemma byte_of_nibbles:
  "char_of (16 * digit_val (digit_char (of_char c div 16)) + digit_val (digit_char (of_char c mod 16))) = c"
proof -
  have lt: "(of_char c :: nat) < 256" by (rule String.nat_of_char_less_256)
  then have hi: "(of_char c :: nat) div 16 < 16" by arith
  have lo: "(of_char c :: nat) mod 16 < 16" by arith
  have "16 * ((of_char c :: nat) div 16) + of_char c mod 16 = of_char c" by arith
  then show ?thesis by (simp add: digit_val_digit_char [OF hi] digit_val_digit_char [OF lo])
qed

lemma percent_decode_encode_char:
  "percent_decode (percent_encode_char c @ r) = c # percent_decode r"
proof (cases "unreserved c")
  case True
  then have "c \<noteq> CHR ''%''" by (simp add: unreserved_not_special)
  with True show ?thesis by (simp add: percent_encode_char_def percent_decode_other)
next
  case False
  have lt: "(of_char c :: nat) < 256" by (rule String.nat_of_char_less_256)
  then have hi: "(of_char c :: nat) div 16 < 16" by arith
  have lo: "(of_char c :: nat) mod 16 < 16" by arith
  show ?thesis
    using False byte_of_nibbles [of c]
    by (simp add: percent_encode_char_def digit_val_digit_char [OF hi]
        digit_val_digit_char [OF lo] hi lo)
qed

lemma percent_decode_encode: "percent_decode (percent_encode s) = s"
  by (induction s) (simp_all add: percent_encode_def percent_decode_encode_char)

lemma plus_to_space_plain: "CHR ''+'' \<notin> set s \<Longrightarrow> plus_to_space s = s"
  by (induction s) (auto simp: plus_to_space_def)

lemma split_on_none: "sep \<notin> set a \<Longrightarrow> split_on sep a = [a]"
  by (induction a) auto

lemma split_on_append: "sep \<notin> set a \<Longrightarrow> split_on sep (a @ sep # b) = a # split_on sep b"
  by (induction a) auto

lemma is_digit_not_special: "is_digit c \<Longrightarrow> \<not> link_delimiter c \<and> c \<noteq> CHR ''%''"
  by (auto simp: is_digit_def link_delimiter_def)

lemma show_nat_safe: "c \<in> set (show_nat n) \<Longrightarrow> \<not> link_delimiter c \<and> c \<noteq> CHR ''%''"
  using show_nat_digits [of n] by (auto simp: list_all_iff dest: is_digit_not_special)

lemma parse_pair_key_value:
  assumes "\<forall>c\<in>set k. c \<noteq> CHR ''='' \<and> c \<noteq> CHR ''+'' \<and> c \<noteq> CHR ''%''"
  shows "parse_pair (k @ CHR ''='' # v) = (k, percent_decode (plus_to_space v))"
proof -
  from assms have a: "\<forall>c\<in>set k. c \<noteq> CHR ''=''" by blast
  have tw: "takeWhile (\<lambda>c. c \<noteq> CHR ''='') (k @ CHR ''='' # v) = k"
    using a by (intro takeWhile_stop) auto
  have dw: "dropWhile (\<lambda>c. c \<noteq> CHR ''='') (k @ CHR ''='' # v) = CHR ''='' # v"
    using a by (intro dropWhile_stop) auto
  from assms have "CHR ''+'' \<notin> set k" and "CHR ''%'' \<notin> set k" by auto
  then have "percent_decode (plus_to_space k) = k"
    by (simp add: plus_to_space_plain percent_decode_plain)
  then show ?thesis by (simp add: parse_pair_def tw dw)
qed

lemma parse_pair_plain_value:
  assumes "\<forall>c\<in>set k. c \<noteq> CHR ''='' \<and> c \<noteq> CHR ''+'' \<and> c \<noteq> CHR ''%''"
    and "\<forall>c\<in>set v. \<not> link_delimiter c \<and> c \<noteq> CHR ''%''"
  shows "parse_pair (k @ CHR ''='' # v) = (k, v)"
proof -
  from assms(2) have "CHR ''+'' \<notin> set v" and "CHR ''%'' \<notin> set v"
    by (auto simp: link_delimiter_def)
  then have "percent_decode (plus_to_space v) = v"
    by (simp add: plus_to_space_plain percent_decode_plain)
  with parse_pair_key_value [OF assms(1)] show ?thesis by simp
qed

lemma parse_pair_encoded_value:
  assumes "\<forall>c\<in>set k. c \<noteq> CHR ''='' \<and> c \<noteq> CHR ''+'' \<and> c \<noteq> CHR ''%''"
  shows "parse_pair (k @ CHR ''='' # percent_encode h) = (k, h)"
proof -
  have "CHR ''+'' \<notin> set (percent_encode h)"
    using percent_encode_safe [of "CHR ''+''" h] by (auto simp: link_delimiter_def)
  then have "percent_decode (plus_to_space (percent_encode h)) = h"
    by (simp add: plus_to_space_plain percent_decode_encode)
  with parse_pair_key_value [OF assms] show ?thesis by simp
qed

lemma parse_query_canonical:
  assumes P: "\<forall>c\<in>set P. \<not> link_delimiter c \<and> c \<noteq> CHR ''%''"
    and Q: "\<forall>c\<in>set Q. \<not> link_delimiter c \<and> c \<noteq> CHR ''%''"
  shows "parse_query (''page='' @ P @ ''&paragraph='' @ Q) = [(''page'', P), (''paragraph'', Q)]"
    and "parse_query (''page='' @ P @ ''&paragraph='' @ Q @ ''&highlight='' @ percent_encode h)
           = [(''page'', P), (''paragraph'', Q), (''highlight'', h)]"
proof -
  have nP: "CHR ''&'' \<notin> set (''page='' @ P)" using P by (auto simp: link_delimiter_def)
  have nQ: "CHR ''&'' \<notin> set (''paragraph='' @ Q)" using Q by (auto simp: link_delimiter_def)
  have nH: "CHR ''&'' \<notin> set (''highlight='' @ percent_encode h)"
    using percent_encode_safe [of "CHR ''&''" h] by (auto simp: link_delimiter_def)
  have s1: "split_on CHR ''&'' ((''page='' @ P) @ CHR ''&'' # (''paragraph='' @ Q))
      = [''page='' @ P, ''paragraph='' @ Q]"
    by (simp only: split_on_append [OF nP] split_on_none [OF nQ])
  have s2: "split_on CHR ''&'' ((''page='' @ P) @ CHR ''&'' # ((''paragraph='' @ Q) @ CHR ''&'' #
        (''highlight='' @ percent_encode h)))
      = [''page='' @ P, ''paragraph='' @ Q, ''highlight='' @ percent_encode h]"
    by (simp only: split_on_append [OF nP] split_on_append [OF nQ] split_on_none [OF nH])
  have pp: "parse_pair (''page'' @ CHR ''='' # P) = (''page'', P)"
    by (rule parse_pair_plain_value [OF _ P]) simp
  have pq: "parse_pair (''paragraph'' @ CHR ''='' # Q) = (''paragraph'', Q)"
    by (rule parse_pair_plain_value [OF _ Q]) simp
  have ph: "parse_pair (''highlight'' @ CHR ''='' # percent_encode h) = (''highlight'', h)"
    by (rule parse_pair_encoded_value) simp
  from s1 have s1': "split_on CHR ''&'' (''page='' @ P @ ''&paragraph='' @ Q)
      = [''page'' @ CHR ''='' # P, ''paragraph'' @ CHR ''='' # Q]" by simp
  from s2 have s2': "split_on CHR ''&'' (''page='' @ P @ ''&paragraph='' @ Q @ ''&highlight='' @ percent_encode h)
      = [''page'' @ CHR ''='' # P, ''paragraph'' @ CHR ''='' # Q, ''highlight'' @ CHR ''='' # percent_encode h]"
    by simp
  show "parse_query (''page='' @ P @ ''&paragraph='' @ Q) = [(''page'', P), (''paragraph'', Q)]"
    unfolding parse_query_def s1' using pp pq by simp
  show "parse_query (''page='' @ P @ ''&paragraph='' @ Q @ ''&highlight='' @ percent_encode h)
           = [(''page'', P), (''paragraph'', Q), (''highlight'', h)]"
    unfolding parse_query_def s2' using pp pq ph by simp
qed

lemma split_canonical_link:
  assumes E: "\<forall>c\<in>set E. \<not> link_delimiter c" and q: "\<forall>c\<in>set qs. c \<noteq> CHR ''#''"
  shows "takeWhile (\<lambda>c. c \<noteq> CHR ''?'')
            (takeWhile (\<lambda>c. c \<noteq> CHR ''#'') (''/viewer/'' @ E @ CHR ''?'' # qs)) = ''/viewer/'' @ E"
    and "drop 1 (dropWhile (\<lambda>c. c \<noteq> CHR ''?'')
            (takeWhile (\<lambda>c. c \<noteq> CHR ''#'') (''/viewer/'' @ E @ CHR ''?'' # qs))) = qs"
proof -
  have h: "\<forall>c\<in>set (''/viewer/'' @ E @ CHR ''?'' # qs). c \<noteq> CHR ''#''"
    using E q by (auto simp: link_delimiter_def)
  have u: "takeWhile (\<lambda>c. c \<noteq> CHR ''#'') (''/viewer/'' @ E @ CHR ''?'' # qs)
      = (''/viewer/'' @ E) @ CHR ''?'' # qs"
    using h by (simp add: takeWhile_eq_all_conv)
  have n: "\<forall>c\<in>set (''/viewer/'' @ E). c \<noteq> CHR ''?''"
    using E by (auto simp: link_delimiter_def)
  show "takeWhile (\<lambda>c. c \<noteq> CHR ''?'')
            (takeWhile (\<lambda>c. c \<noteq> CHR ''#'') (''/viewer/'' @ E @ CHR ''?'' # qs)) = ''/viewer/'' @ E"
    unfolding u using n by (intro takeWhile_stop) auto
  have "dropWhile (\<lambda>c. c \<noteq> CHR ''?'') ((''/viewer/'' @ E) @ CHR ''?'' # qs) = CHR ''?'' # qs"
    using n by (intro dropWhile_stop) auto
  then show "drop 1 (dropWhile (\<lambda>c. c \<noteq> CHR ''?'')
            (takeWhile (\<lambda>c. c \<noteq> CHR ''#'') (''/viewer/'' @ E @ CHR ''?'' # qs))) = qs"
    unfolding u by simp
qed

lemma decode_link_canonical:
  assumes E: "\<forall>c\<in>set E. \<not> link_delimiter c" and ne: "E \<noteq> []"
    and q: "\<forall>c\<in>set qs. c \<noteq> CHR ''#''"
  shows "decode_link (''/viewer/'' @ E @ CHR ''?'' # qs)
           = Some (decodeTarget (percent_decode E) (parse_query qs))"
proof -
  have sl: "CHR ''/'' \<notin> set E" using E by (auto simp: link_delimiter_def)
  show ?thesis
    unfolding decode_link_def Let_def
    by (simp only: split_canonical_link [OF E q]) (simp add: ne sl)
qed

lemma printed_nat_plain:
  "0 \<le> n \<Longrightarrow> \<forall>c\<in>set (show_int n). \<not> link_delimiter c \<and> c \<noteq> CHR ''%''"
  by (auto simp: show_int_def dest: show_nat_safe)

text \<open>
  C8, within the integers a Number holds exactly. For every Navigation Target with a
  non-empty document identifier, a page from 1 to \<open>2^53 - 1\<close>, a paragraph from 0 to
  \<open>2^53 - 1\<close> and a highlight that is a string or \<open>null\<close>, decoding the canonical link
  encoded from the target gives the target back.
\<close>

theorem decode_encode_roundtrip:
  assumes "document_id t \<noteq> []"
    and "1 \<le> page_no t" and "page_no t < 2 ^ 53"
    and "0 \<le> paragraph_no t" and "paragraph_no t < 2 ^ 53"
  shows "decode_link (encode_link t) = Some (decoded_as t)"
proof -
  let ?E = "percent_encode (document_id t)"
  let ?P = "show_int (page_no t)"
  let ?Q = "show_int (paragraph_no t)"
  have E: "\<forall>c\<in>set ?E. \<not> link_delimiter c" using percent_encode_safe by blast
  have ne: "?E \<noteq> []" using assms(1) by (rule percent_encode_nonempty)
  have P: "\<forall>c\<in>set ?P. \<not> link_delimiter c \<and> c \<noteq> CHR ''%''"
    using assms(2) by (intro printed_nat_plain) simp
  have Q: "\<forall>c\<in>set ?Q. \<not> link_delimiter c \<and> c \<noteq> CHR ''%''"
    using assms(4) by (intro printed_nat_plain)
  have "\<bar>page_no t\<bar> < 2 ^ 53" using assms(2,3) by simp
  then have pP: "parseInt (or_default (Some ?P) ''1'') = Num (page_no t)"
    by (simp add: or_default_def show_int_nonempty parseInt_show_int)
  have "\<bar>paragraph_no t\<bar> < 2 ^ 53" using assms(4,5) by simp
  then have pQ: "parseInt (or_default (Some ?Q) ''0'') = Num (paragraph_no t)"
    by (simp add: or_default_def show_int_nonempty parseInt_show_int)
  have de: "percent_decode ?E = document_id t" by (rule percent_decode_encode)
  show ?thesis
  proof (cases "highlight_chunk_id t")
    case None
    let ?qs = "''page='' @ ?P @ ''&paragraph='' @ ?Q"
    have enc: "encode_link t = ''/viewer/'' @ ?E @ CHR ''?'' # ?qs"
      using None by (simp add: encode_link_def)
    have q: "\<forall>c\<in>set ?qs. c \<noteq> CHR ''#''" using P Q by (auto simp: link_delimiter_def)
    have pq: "parse_query ?qs = [(''page'', ?P), (''paragraph'', ?Q)]"
      by (rule parse_query_canonical(1) [OF P Q])
    have "decodeTarget (document_id t) [(''page'', ?P), (''paragraph'', ?Q)] = decoded_as t"
      using None pP pQ by (simp add: decodeTarget_def sp_get_def decoded_as_def)
    then show ?thesis
      by (simp only: enc decode_link_canonical [OF E ne q] pq de)
  next
    case (Some h)
    let ?qs = "''page='' @ ?P @ ''&paragraph='' @ ?Q @ ''&highlight='' @ percent_encode h"
    have enc: "encode_link t = ''/viewer/'' @ ?E @ CHR ''?'' # ?qs"
      using Some by (simp add: encode_link_def)
    have "\<forall>c\<in>set (percent_encode h). c \<noteq> CHR ''#''"
      using percent_encode_safe [of _ h] by (auto simp: link_delimiter_def)
    then have q: "\<forall>c\<in>set ?qs. c \<noteq> CHR ''#''" using P Q by (auto simp: link_delimiter_def)
    have pq: "parse_query ?qs = [(''page'', ?P), (''paragraph'', ?Q), (''highlight'', h)]"
      by (rule parse_query_canonical(2) [OF P Q])
    have "decodeTarget (document_id t) [(''page'', ?P), (''paragraph'', ?Q), (''highlight'', h)]
        = decoded_as t"
      using Some pP pQ by (simp add: decodeTarget_def sp_get_def decoded_as_def)
    then show ?thesis
      by (simp only: enc decode_link_canonical [OF E ne q] pq de)
  qed
qed

text \<open>
  The target of the cited chunk \<open>c9\<close>, page 2, paragraph 3 of \<open>my policy.pdf\<close>.
\<close>

theorem decode_encode_roundtrip_witness:
  "document_id cited_target \<noteq> [] \<and> 1 \<le> page_no cited_target \<and> page_no cited_target < 2 ^ 53 \<and>
   0 \<le> paragraph_no cited_target \<and> paragraph_no cited_target < 2 ^ 53 \<and>
   encode_link cited_target = ''/viewer/my%20policy.pdf?page=2&paragraph=3&highlight=c9'' \<and>
   decode_link ''/viewer/my%20policy.pdf?page=2&paragraph=3&highlight=c9''
     = Some \<lparr>target_docId = ''my policy.pdf'', targetPage = Num 2, targetParagraph = Num 3,
              highlightChunkId = Some ''c9''\<rparr>"
proof -
  have a: "document_id cited_target \<noteq> []" by (simp add: cited_target_def)
  have b: "1 \<le> page_no cited_target" and b': "page_no cited_target < 2 ^ 53"
    by (simp_all add: cited_target_def)
  have c: "0 \<le> paragraph_no cited_target" and c': "paragraph_no cited_target < 2 ^ 53"
    by (simp_all add: cited_target_def)
  have e: "encode_link cited_target = ''/viewer/my%20policy.pdf?page=2&paragraph=3&highlight=c9''"
    by code_simp
  have d: "decoded_as cited_target = \<lparr>target_docId = ''my policy.pdf'', targetPage = Num 2,
      targetParagraph = Num 3, highlightChunkId = Some ''c9''\<rparr>"
    by (simp add: decoded_as_def cited_target_def)
  from decode_encode_roundtrip [OF a b b' c c']
  have r: "decode_link ''/viewer/my%20policy.pdf?page=2&paragraph=3&highlight=c9''
     = Some \<lparr>target_docId = ''my policy.pdf'', targetPage = Num 2, targetParagraph = Num 3,
              highlightChunkId = Some ''c9''\<rparr>"
    by (simp only: e d)
  show ?thesis by (intro conjI a b b' c c' e r)
qed

text \<open>
  The law fails for a valid target whose page is \<open>2^53 + 1\<close>. The link carries the
  digits of the page, \<open>parseInt\<close> turns them into a Number, and no Number is
  \<open>2^53 + 1\<close>: above \<open>2^53\<close> the doubles are even integers. The decoded page differs
  from the page of the target.
\<close>

theorem decode_encode_unsafe_page_counterexample:
  "document_id far_target \<noteq> [] \<and> 1 \<le> page_no far_target \<and> 0 \<le> paragraph_no far_target \<and>
   page_no far_target = 2 ^ 53 + 1 \<and>
   encode_link far_target = ''/viewer/policy.pdf?page=9007199254740993&paragraph=0'' \<and>
   parseInt ''9007199254740993'' = Unsafe False \<and>
   targetPage (decodeTarget ''policy.pdf'' [(''page'', ''9007199254740993''), (''paragraph'', ''0'')])
     \<noteq> Num (page_no far_target) \<and>
   decode_link (encode_link far_target) \<noteq> Some (decoded_as far_target)"
  by code_simp

section \<open>Properties of page navigation\<close>

text \<open>
  C7. With a document loaded, \<open>goToPage n\<close> for an integer \<open>n\<close> below 1 or above the
  document's \<open>total_pages\<close> returns the state it was given: the page counter, the chunks,
  and every other cell and log are unchanged, and no request is sent.
\<close>

theorem goToPage_out_of_range_no_change:
  assumes "document s = Some d" and "n < 1 \<or> n > total_pages d"
  shows "goToPage api (Num n) s = s \<and> goToPage_send (Num n) s = s"
  using assms by (auto simp: goToPage_def goToPage_send_def goToPage_rejects_def js_greater_def)

theorem goToPage_out_of_range_no_change_witness:
  "document ready_p1 = Some policy_doc \<and> ((4::int) < 1 \<or> 4 > total_pages policy_doc) \<and>
   goToPage policy_api (Num 4) ready_p1 = ready_p1 \<and> goToPage_send (Num 4) ready_p1 = ready_p1"
proof -
  have d: "document ready_p1 = Some policy_doc" by (simp add: ready_p1_def)
  have r: "(4::int) < 1 \<or> 4 > total_pages policy_doc" by (simp add: policy_doc_def)
  show ?thesis using d r goToPage_out_of_range_no_change [OF d r, of policy_api] by simp
qed

text \<open>
  C10. For an in-range \<open>n\<close>, when the chunk fetch sent by \<open>goToPage n\<close> fails (rejected,
  or answered with a status that is not ok), the chunks stay those shown before, while
  the page counter is already \<open>n\<close>; the error cell is untouched. So the page number on
  screen and the chunks on screen can belong to different pages.
\<close>

theorem goToPage_fetch_failure_keeps_chunks:
  assumes "document s = Some d" and "1 \<le> n" and "n \<le> total_pages d"
    and "api (filename d) (Num n) = Rejected m \<or> api (filename d) (Num n) = NotOk"
  shows "chunks (goToPage api (Num n) s) = chunks s \<and>
         currentPage (goToPage api (Num n) s) = Num n \<and>
         error (goToPage api (Num n) s) = error s \<and>
         currentPage (goToPage_send (Num n) s) = Num n"
  using assms
  by (auto simp: goToPage_def goToPage_send_def goToPage_rejects_def js_greater_def
      loadPageChunks_def loadPageChunks_send_def loadPageChunks_settle_def)

theorem goToPage_fetch_failure_keeps_chunks_witness:
  "document ready_p1 = Some policy_doc \<and> (1::int) \<le> 2 \<and> 2 \<le> total_pages policy_doc \<and>
   (down_api (filename policy_doc) (Num 2) = Rejected ''Failed to fetch'' \<or>
    down_api (filename policy_doc) (Num 2) = NotOk) \<and>
   chunks (goToPage down_api (Num 2) ready_p1) = [chunk_c1] \<and>
   currentPage (goToPage down_api (Num 2) ready_p1) = Num 2 \<and>
   page_number chunk_c1 = 1"
proof -
  have d: "document ready_p1 = Some policy_doc" by (simp add: ready_p1_def)
  have lo: "(1::int) \<le> 2" by simp
  have hi: "2 \<le> total_pages policy_doc" by (simp add: policy_doc_def)
  have f: "down_api (filename policy_doc) (Num 2) = Rejected ''Failed to fetch'' \<or>
           down_api (filename policy_doc) (Num 2) = NotOk" by (simp add: down_api_def)
  have c: "chunks ready_p1 = [chunk_c1]" by (simp add: ready_p1_def)
  have p: "page_number chunk_c1 = 1" by (simp add: chunk_c1_def)
  show ?thesis
    using d lo hi f c p
      goToPage_fetch_failure_keeps_chunks
        [of ready_p1 policy_doc 2 down_api "''Failed to fetch''", OF d lo hi f]
    by simp
qed

section \<open>Properties of document resolution and loading\<close>

text \<open>
  \<open>js_includes\<close> is substring containment, and \<open>find\<close> returns the first element the
  predicate accepts: the element splits the list, and nothing before it is accepted.
\<close>

lemma js_includes_iff: "js_includes hay needle \<longleftrightarrow> (\<exists>ps ss. hay = ps @ needle @ ss)"
proof (induction hay)
  case Nil
  then show ?case by auto
next
  case (Cons h hs)
  show ?case
  proof
    assume "js_includes (h # hs) needle"
    then consider "prefix needle (h # hs)" | "js_includes hs needle" by auto
    then show "\<exists>ps ss. h # hs = ps @ needle @ ss"
    proof cases
      case 1
      then obtain zs where "h # hs = needle @ zs" by (auto simp: prefix_def)
      then have "h # hs = [] @ needle @ zs" by simp
      then show ?thesis by blast
    next
      case 2
      with Cons.IH obtain ps ss where "hs = ps @ needle @ ss" by blast
      then have "h # hs = (h # ps) @ needle @ ss" by simp
      then show ?thesis by blast
    qed
  next
    assume "\<exists>ps ss. h # hs = ps @ needle @ ss"
    then obtain ps ss where e: "h # hs = ps @ needle @ ss" by blast
    show "js_includes (h # hs) needle"
    proof (cases ps)
      case Nil
      with e have "prefix needle (h # hs)" by (simp add: prefix_def)
      then show ?thesis by simp
    next
      case (Cons p ps')
      with e have "hs = ps' @ needle @ ss" by simp
      with Cons.IH have "js_includes hs needle" by blast
      then show ?thesis by simp
    qed
  qed
qed

lemma find_first_split:
  "find P xs = Some x \<longleftrightarrow>
     (\<exists>pre post. xs = pre @ x # post \<and> P x \<and> (\<forall>e\<in>set pre. \<not> P e))"
proof (induction xs)
  case Nil
  then show ?case by simp
next
  case (Cons a xs)
  show ?case
  proof (cases "P a")
    case True
    show ?thesis
    proof
      assume "find P (a # xs) = Some x"
      with True have "x = a" by simp
      with True have "a # xs = [] @ x # xs \<and> P x \<and> (\<forall>e\<in>set []. \<not> P e)" by simp
      then show "\<exists>pre post. a # xs = pre @ x # post \<and> P x \<and> (\<forall>e\<in>set pre. \<not> P e)" by blast
    next
      assume "\<exists>pre post. a # xs = pre @ x # post \<and> P x \<and> (\<forall>e\<in>set pre. \<not> P e)"
      then obtain pre post where e: "a # xs = pre @ x # post" and n: "\<forall>e\<in>set pre. \<not> P e" by blast
      have "pre = []"
      proof (cases pre)
        case Nil then show ?thesis .
      next
        case (Cons b bs)
        with e have "b = a" by simp
        with Cons n True show ?thesis by simp
      qed
      with e have "x = a" by simp
      with True show "find P (a # xs) = Some x" by simp
    qed
  next
    case False
    show ?thesis
    proof
      assume "find P (a # xs) = Some x"
      with False have "find P xs = Some x" by simp
      with Cons.IH obtain pre post where "xs = pre @ x # post" "P x" "\<forall>e\<in>set pre. \<not> P e" by blast
      with False have "a # xs = (a # pre) @ x # post \<and> P x \<and> (\<forall>e\<in>set (a # pre). \<not> P e)" by simp
      then show "\<exists>pre post. a # xs = pre @ x # post \<and> P x \<and> (\<forall>e\<in>set pre. \<not> P e)" by blast
    next
      assume "\<exists>pre post. a # xs = pre @ x # post \<and> P x \<and> (\<forall>e\<in>set pre. \<not> P e)"
      then obtain pre post where e: "a # xs = pre @ x # post" and px: "P x" and n: "\<forall>e\<in>set pre. \<not> P e" by blast
      from e px False obtain pre' where p: "pre = a # pre'" by (cases pre) auto
      with e have "xs = pre' @ x # post" by simp
      moreover from p n have "\<forall>e\<in>set pre'. \<not> P e" by simp
      ultimately have "find P xs = Some x" using Cons.IH px by blast
      with False show "find P (a # xs) = Some x" by simp
    qed
  qed
qed

text \<open>
  C3, as the code has it. The document is the first entry of the catalog, in catalog
  order, whose filename contains the target identifier or is contained in it: one pass
  with both tests on each entry, and no precedence of an exact match or of one test over
  the other. With such an entry the document cell holds it and the error cell is
  untouched; when no entry passes either test, the error cell holds the message
  \<open>document_non_trouve\<close>, the document cell is left as it was and no chunk request is
  sent. The scenario of the specification holds: with \<open>policy_v2.pdf\<close> alone in the
  catalog, the target \<open>policy\<close> resolves to it.
\<close>

theorem resolveDocument_first_match:
  "(resolveDocument docs docId = Some d \<longleftrightarrow>
      (\<exists>pre post. docs = pre @ d # post \<and> matches_docId docId d \<and>
         (\<forall>e\<in>set pre. \<not> matches_docId docId e))) \<and>
   (resolveDocument docs docId = Some d \<longrightarrow>
      document (loadDocument (Catalog docs) api docId pg s) = Some d \<and>
      error (loadDocument (Catalog docs) api docId pg s) = error s) \<and>
   ((\<forall>e\<in>set docs. \<not> matches_docId docId e) \<longrightarrow>
      error (loadDocument (Catalog docs) api docId pg s) = Some document_non_trouve \<and>
      document (loadDocument (Catalog docs) api docId pg s) = document s \<and>
      requests (loadDocument (Catalog docs) api docId pg s) = requests s)"
proof (intro conjI impI)
  show "resolveDocument docs docId = Some d \<longleftrightarrow>
      (\<exists>pre post. docs = pre @ d # post \<and> matches_docId docId d \<and>
         (\<forall>e\<in>set pre. \<not> matches_docId docId e))"
    unfolding resolveDocument_def by (rule find_first_split)
next
  assume r: "resolveDocument docs docId = Some d"
  show "document (loadDocument (Catalog docs) api docId pg s) = Some d"
    using r by (cases "api (filename d) pg")
      (simp_all add: loadDocument_def loadPageChunks_def loadPageChunks_send_def
        loadPageChunks_settle_def)
  show "error (loadDocument (Catalog docs) api docId pg s) = error s"
    using r by (cases "api (filename d) pg")
      (simp_all add: loadDocument_def loadPageChunks_def loadPageChunks_send_def
        loadPageChunks_settle_def)
next
  assume n: "\<forall>e\<in>set docs. \<not> matches_docId docId e"
  then have r: "resolveDocument docs docId = None"
    by (simp add: resolveDocument_def find_None_iff)
  show "error (loadDocument (Catalog docs) api docId pg s) = Some document_non_trouve"
    using r by (simp add: loadDocument_def)
  show "document (loadDocument (Catalog docs) api docId pg s) = document s"
    using r by (simp add: loadDocument_def)
  show "requests (loadDocument (Catalog docs) api docId pg s) = requests s"
    using r by (simp add: loadDocument_def)
qed

theorem resolveDocument_first_match_witness:
  "resolveDocument [policy_v2_doc] ''policy'' = Some policy_v2_doc \<and>
   resolveDocument [annex_doc, policy_doc] ''policy.pdf'' = Some annex_doc \<and>
   document (loadDocument (Catalog [annex_doc, policy_doc]) policy_api ''policy.pdf'' (Num 1) initial)
     = Some annex_doc \<and>
   \<not> matches_docId ''report'' annex_doc \<and> \<not> matches_docId ''report'' policy_doc \<and>
   error (loadDocument (Catalog [annex_doc, policy_doc]) policy_api ''report'' (Num 1) initial)
     = Some document_non_trouve"
proof -
  have m: "[annex_doc, policy_doc] = [] @ annex_doc # [policy_doc] \<and>
           matches_docId ''policy.pdf'' annex_doc \<and>
           (\<forall>e\<in>set []. \<not> matches_docId ''policy.pdf'' e)"
    by (simp add: matches_docId_def annex_doc_def)
  note t1 = resolveDocument_first_match
    [of "[annex_doc, policy_doc]" "''policy.pdf''" annex_doc policy_api "Num 1" initial]
  from m t1 have r: "resolveDocument [annex_doc, policy_doc] ''policy.pdf'' = Some annex_doc"
    by blast
  from r t1 have d: "document (loadDocument (Catalog [annex_doc, policy_doc]) policy_api
      ''policy.pdf'' (Num 1) initial) = Some annex_doc"
    by blast
  have n: "\<forall>e\<in>set [annex_doc, policy_doc]. \<not> matches_docId ''report'' e"
    by (simp add: matches_docId_def annex_doc_def policy_doc_def)
  note t2 = resolveDocument_first_match
    [of "[annex_doc, policy_doc]" "''report''" annex_doc policy_api "Num 1" initial]
  from n t2 have e: "error (loadDocument (Catalog [annex_doc, policy_doc]) policy_api
      ''report'' (Num 1) initial) = Some document_non_trouve"
    by blast
  from n have n': "\<not> matches_docId ''report'' annex_doc" "\<not> matches_docId ''report'' policy_doc"
    by simp_all
  have "[policy_v2_doc] = [] @ policy_v2_doc # [] \<and> matches_docId ''policy'' policy_v2_doc \<and>
        (\<forall>e\<in>set []. \<not> matches_docId ''policy'' e)"
    by (simp add: matches_docId_def policy_v2_doc_def)
  with resolveDocument_first_match
    [of "[policy_v2_doc]" "''policy''" policy_v2_doc policy_api "Num 1" initial]
  have v: "resolveDocument [policy_v2_doc] ''policy'' = Some policy_v2_doc" by blast
  show ?thesis by (intro conjI v r d n' e)
qed

text \<open>
  The three-tier precedence fails on the code: with \<open>annex_policy.pdf\<close> listed before
  \<open>policy.pdf\<close>, the target \<open>policy.pdf\<close> resolves to \<open>annex_policy.pdf\<close>, whose
  filename contains it, although the catalog holds an entry equal to the target.
\<close>

theorem resolveDocument_precedence_counterexample:
  "resolveDocument [annex_doc, policy_doc] ''policy.pdf'' = Some annex_doc \<and>
   resolveDocument_spec [annex_doc, policy_doc] ''policy.pdf'' = Some policy_doc \<and>
   document (loadDocument (Catalog [annex_doc, policy_doc]) policy_api ''policy.pdf'' (Num 1) initial)
     = Some annex_doc \<and>
   filename policy_doc = ''policy.pdf'' \<and> annex_doc \<noteq> policy_doc"
  by (simp add: resolveDocument_def resolveDocument_spec_def matches_docId_def annex_doc_def
      policy_doc_def loadDocument_def loadPageChunks_def loadPageChunks_send_def
      loadPageChunks_settle_def policy_api_def initial_def)

text \<open>
  C5, as the code has it. Once the document is resolved, the page counter is set to the
  decoded target page as it is, inside or outside \<open>[1, total_pages]\<close>, and the chunk
  request is sent for that same page; the error cell is untouched whatever the chunk
  endpoint answers, and loading ends.
\<close>

theorem loadDocument_page_not_clamped:
  assumes "resolveDocument docs docId = Some d"
  shows "currentPage (loadDocument (Catalog docs) api docId pg s) = pg \<and>
         requests (loadDocument (Catalog docs) api docId pg s) = requests s @ [(filename d, pg)] \<and>
         error (loadDocument (Catalog docs) api docId pg s) = error s \<and>
         loading (loadDocument (Catalog docs) api docId pg s) = False"
  using assms by (cases "api (filename d) pg")
    (simp_all add: loadDocument_def loadPageChunks_def loadPageChunks_send_def
        loadPageChunks_settle_def)

theorem loadDocument_page_not_clamped_witness:
  "resolveDocument [policy_doc] ''policy.pdf'' = Some policy_doc \<and>
   currentPage (loadDocument (Catalog [policy_doc]) policy_api ''policy.pdf'' (Num 0) initial) = Num 0 \<and>
   requests (loadDocument (Catalog [policy_doc]) policy_api ''policy.pdf'' (Num 0) initial)
     = [(''policy.pdf'', Num 0)] \<and>
   error (loadDocument (Catalog [policy_doc]) policy_api ''policy.pdf'' (Num 0) initial) = None"
proof -
  have r: "resolveDocument [policy_doc] ''policy.pdf'' = Some policy_doc"
    by (simp add: resolveDocument_def matches_docId_def policy_doc_def)
  have i: "requests initial = [] \<and> error initial = None" by (simp add: initial_def)
  have f: "filename policy_doc = ''policy.pdf''" by (simp add: policy_doc_def)
  show ?thesis
    using r i f loadDocument_page_not_clamped [OF r, of policy_api "Num 0" initial] by simp
qed

text \<open>
  The clamp fails on the code: for a document of 3 pages and the target page 7, the page
  counter becomes 7 and the request asks for page 7.
\<close>

theorem loadDocument_clamp_counterexample:
  "resolveDocument [policy_doc] ''policy.pdf'' = Some policy_doc \<and> total_pages policy_doc = 3 \<and>
   currentPage (loadDocument (Catalog [policy_doc]) policy_api ''policy.pdf'' (Num 7) initial) = Num 7 \<and>
   requests (loadDocument (Catalog [policy_doc]) policy_api ''policy.pdf'' (Num 7) initial)
     = [(''policy.pdf'', Num 7)]"
  by (simp add: resolveDocument_def matches_docId_def policy_doc_def loadDocument_def
      loadPageChunks_def loadPageChunks_send_def loadPageChunks_settle_def policy_api_def
      initial_def)

section \<open>Properties of failed and overlapping chunk fetches\<close>

text \<open>
  C6, as the code has it. When a chunk fetch fails (rejected, or answered with a status
  that is not ok), the continuation writes one line to the console and leaves every state
  cell as it was: the error cell in particular, so no error view appears. The viewer stays
  navigable: a later in-range \<open>goToPage\<close> whose fetch succeeds shows that page's chunks.
\<close>

theorem chunk_fetch_failure_only_logged:
  assumes "r = Rejected m \<or> r = NotOk"
  shows "error (loadPageChunks_settle r s) = error s \<and>
         chunks (loadPageChunks_settle r s) = chunks s \<and>
         currentPage (loadPageChunks_settle r s) = currentPage s \<and>
         document (loadPageChunks_settle r s) = document s \<and>
         loading (loadPageChunks_settle r s) = loading s \<and>
         length (console (loadPageChunks_settle r s)) = Suc (length (console s)) \<and>
         (\<forall>d n cs. document s = Some d \<and> 1 \<le> n \<and> n \<le> total_pages d \<and>
              api (filename d) (Num n) = Json cs \<longrightarrow>
            chunks (goToPage api (Num n) (loadPageChunks_settle r s)) = cs \<and>
            currentPage (goToPage api (Num n) (loadPageChunks_settle r s)) = Num n)"
  using assms
  by (auto simp: loadPageChunks_settle_def goToPage_def goToPage_rejects_def js_greater_def
      loadPageChunks_def loadPageChunks_send_def)

theorem chunk_fetch_failure_only_logged_witness:
  "(down_api ''policy.pdf'' (Num 2) = Rejected ''Failed to fetch'' \<or>
    down_api ''policy.pdf'' (Num 2) = NotOk) \<and>
   error (loadPageChunks_settle (down_api ''policy.pdf'' (Num 2)) ready_p1) = None \<and>
   document ready_p1 = Some policy_doc \<and> (1::int) \<le> 3 \<and> 3 \<le> total_pages policy_doc \<and>
   policy_api (filename policy_doc) (Num 3) = Json [chunk_c12] \<and>
   chunks (goToPage policy_api (Num 3)
     (loadPageChunks_settle (down_api ''policy.pdf'' (Num 2)) ready_p1)) = [chunk_c12]"
proof -
  have f: "down_api ''policy.pdf'' (Num 2) = Rejected ''Failed to fetch'' \<or>
           down_api ''policy.pdf'' (Num 2) = NotOk" by (simp add: down_api_def)
  have d: "document ready_p1 = Some policy_doc" by (simp add: ready_p1_def)
  have e: "error ready_p1 = None" by (simp add: ready_p1_def)
  have t: "(1::int) \<le> 3 \<and> 3 \<le> total_pages policy_doc" by (simp add: policy_doc_def)
  have a: "policy_api (filename policy_doc) (Num 3) = Json [chunk_c12]"
    by (simp add: policy_api_def policy_doc_def)
  note th = chunk_fetch_failure_only_logged
    [of "down_api ''policy.pdf'' (Num 2)" "''Failed to fetch''" ready_p1 policy_api, OF f]
  from th have e': "error (loadPageChunks_settle (down_api ''policy.pdf'' (Num 2)) ready_p1) = error ready_p1"
    by blast
  from th d t a have c: "chunks (goToPage policy_api (Num 3)
     (loadPageChunks_settle (down_api ''policy.pdf'' (Num 2)) ready_p1)) = [chunk_c12]"
    by blast
  show ?thesis using f d e t a e' c by simp
qed

text \<open>
  The error state is not entered: with the chunk endpoint down, the error cell is still
  empty after \<open>goToPage\<close> and after \<open>loadDocument\<close>; the failure is on the console only.
\<close>

theorem chunk_fetch_error_state_counterexample:
  "down_api ''policy.pdf'' (Num 2) = Rejected ''Failed to fetch'' \<and>
   error (goToPage down_api (Num 2) ready_p1) = None \<and>
   console (goToPage down_api (Num 2) ready_p1) = [''Failed to fetch''] \<and>
   error (loadDocument (Catalog [policy_doc]) down_api ''policy.pdf'' (Num 2) initial) = None"
  by (simp add: down_api_def goToPage_def goToPage_rejects_def js_greater_def ready_p1_def
      policy_doc_def loadPageChunks_def loadPageChunks_send_def loadPageChunks_settle_def
      loadDocument_def resolveDocument_def matches_docId_def initial_def)

text \<open>
  C1, as the code has it. Replies are applied in the order they arrive, each one
  replacing the chunks, with no check against the latest request. After \<open>goToPage p\<close> and
  \<open>goToPage (p + 1)\<close> sent before the first reply, the chunks shown at the end are those
  of the reply that arrived last: page \<open>p + 1\<close>'s when the replies arrive in request
  order, page \<open>p\<close>'s when they arrive in the opposite order, the page counter being
  \<open>p + 1\<close> in both cases.
\<close>

theorem overlapping_fetches_last_reply_wins:
  assumes "document s = Some d" and "1 \<le> p" and "p + 1 \<le> total_pages d"
    and "api (filename d) (Num p) = Json cp" and "api (filename d) (Num (p + 1)) = Json cq"
  shows "requests (goToPage_send (Num (p + 1)) (goToPage_send (Num p) s))
           = requests s @ [(filename d, Num p), (filename d, Num (p + 1))] \<and>
         chunks (loadPageChunks_settle (api (filename d) (Num (p + 1)))
            (loadPageChunks_settle (api (filename d) (Num p))
               (goToPage_send (Num (p + 1)) (goToPage_send (Num p) s)))) = cq \<and>
         chunks (loadPageChunks_settle (api (filename d) (Num p))
            (loadPageChunks_settle (api (filename d) (Num (p + 1)))
               (goToPage_send (Num (p + 1)) (goToPage_send (Num p) s)))) = cp \<and>
         currentPage (loadPageChunks_settle (api (filename d) (Num p))
            (loadPageChunks_settle (api (filename d) (Num (p + 1)))
               (goToPage_send (Num (p + 1)) (goToPage_send (Num p) s)))) = Num (p + 1)"
  using assms
  by (auto simp: loadPageChunks_settle_def goToPage_send_def goToPage_rejects_def js_greater_def
      loadPageChunks_send_def)

theorem overlapping_fetches_last_reply_wins_witness:
  "document ready_p1 = Some policy_doc \<and> (1::int) \<le> 2 \<and> 2 + 1 \<le> total_pages policy_doc \<and>
   policy_api (filename policy_doc) (Num 2) = Json [chunk_c9] \<and>
   policy_api (filename policy_doc) (Num (2 + 1)) = Json [chunk_c12] \<and>
   chunks (loadPageChunks_settle (policy_api (filename policy_doc) (Num (2 + 1)))
      (loadPageChunks_settle (policy_api (filename policy_doc) (Num 2))
         (goToPage_send (Num (2 + 1)) (goToPage_send (Num 2) ready_p1)))) = [chunk_c12] \<and>
   chunks (loadPageChunks_settle (policy_api (filename policy_doc) (Num 2))
      (loadPageChunks_settle (policy_api (filename policy_doc) (Num (2 + 1)))
         (goToPage_send (Num (2 + 1)) (goToPage_send (Num 2) ready_p1)))) = [chunk_c9]"
proof -
  have d: "document ready_p1 = Some policy_doc" by (simp add: ready_p1_def)
  have lo: "(1::int) \<le> 2" by simp
  have hi: "2 + 1 \<le> total_pages policy_doc" by (simp add: policy_doc_def)
  have a: "policy_api (filename policy_doc) (Num 2) = Json [chunk_c9]"
    by (simp add: policy_api_def policy_doc_def)
  have b: "policy_api (filename policy_doc) (Num (2 + 1)) = Json [chunk_c12]"
    by (simp add: policy_api_def policy_doc_def)
  show ?thesis
    using d lo hi a b
      overlapping_fetches_last_reply_wins
        [of ready_p1 policy_doc 2 policy_api "[chunk_c9]" "[chunk_c12]", OF d lo hi a b]
    by simp
qed

text \<open>
  Stale replies are not discarded: page 2 is requested, then page 3; the reply for page 3
  arrives first and the reply for page 2 after it. The viewer ends on page counter 3
  showing the chunks of page 2.
\<close>

theorem stale_reply_applied_counterexample:
  "policy_api ''policy.pdf'' (Num 2) = Json [chunk_c9] \<and>
   policy_api ''policy.pdf'' (Num 3) = Json [chunk_c12] \<and>
   requests (goToPage_send (Num 3) (goToPage_send (Num 2) ready_p1))
     = [(''policy.pdf'', Num 1), (''policy.pdf'', Num 2), (''policy.pdf'', Num 3)] \<and>
   chunks (loadPageChunks_settle (policy_api ''policy.pdf'' (Num 2))
      (loadPageChunks_settle (policy_api ''policy.pdf'' (Num 3))
         (goToPage_send (Num 3) (goToPage_send (Num 2) ready_p1)))) = [chunk_c9] \<and>
   currentPage (loadPageChunks_settle (policy_api ''policy.pdf'' (Num 2))
      (loadPageChunks_settle (policy_api ''policy.pdf'' (Num 3))
         (goToPage_send (Num 3) (goToPage_send (Num 2) ready_p1)))) = Num 3 \<and>
   [chunk_c9] \<noteq> [chunk_c12]"
  by (simp add: policy_api_def goToPage_send_def goToPage_rejects_def js_greater_def ready_p1_def
      policy_doc_def loadPageChunks_send_def loadPageChunks_settle_def chunk_c9_def chunk_c12_def)

section \<open>Properties of the highlight scroll\<close>

text \<open>
  The state \<open>loadDocument\<close> ends in when the document is found and the chunk reply is
  parsed.
\<close>

lemma loadDocument_resolved:
  assumes "resolveDocument docs docId = Some d" and "api (filename d) pg = Json cs"
  shows "loadDocument (Catalog docs) api docId pg s =
           s\<lparr>loading := False, document := Some d, currentPage := pg,
              requests := requests s @ [(filename d, pg)], chunks := cs\<rparr>"
  using assms
  by (simp add: loadDocument_def loadPageChunks_def loadPageChunks_send_def
      loadPageChunks_settle_def Let_def)

text \<open>
  C9, as the code has it. No error being on display, every load whose parsed chunks
  contain the non-empty highlight identifier starts exactly one scroll timer of 300 ms.
  This holds for the load of the deep link itself, which \<open>loadDocument\<close> runs while the
  spinner is up, and for every load of a page change in the document view: the first
  load and every later one alike, whether or not the page and the highlight are the
  same as before. When no loaded chunk has the identifier, or the link carries no
  highlight, no timer is started and the error cell stays empty.
\<close>

theorem scroll_scheduled_on_every_load:
  assumes "error s = None"
  shows "(resolveDocument docs docId = Some d \<and> api (filename d) pg = Json cs \<longrightarrow>
            (h \<noteq> [] \<and> list_ex (\<lambda>c. chunk_id c = h) cs \<longrightarrow>
               timers (loadDocument_rendered (Some h) (Catalog docs) api docId pg s)
                 = timers s @ [300]) \<and>
            (\<not> list_ex (\<lambda>c. chunk_id c = h) cs \<longrightarrow>
               timers (loadDocument_rendered (Some h) (Catalog docs) api docId pg s) = timers s \<and>
               error (loadDocument_rendered (Some h) (Catalog docs) api docId pg s) = None) \<and>
            timers (loadDocument_rendered None (Catalog docs) api docId pg s) = timers s \<and>
            chunks (loadDocument_rendered (Some h) (Catalog docs) api docId pg s) = cs) \<and>
         (\<not> loading s \<longrightarrow>
            (h \<noteq> [] \<and> list_ex (\<lambda>c. chunk_id c = h) cs \<longrightarrow>
               timers (settle_and_render (Some h) (Json cs) s) = timers s @ [300]) \<and>
            (\<not> list_ex (\<lambda>c. chunk_id c = h) cs \<longrightarrow>
               timers (settle_and_render (Some h) (Json cs) s) = timers s \<and>
               error (settle_and_render (Some h) (Json cs) s) = None) \<and>
            timers (settle_and_render None (Json cs) s) = timers s \<and>
            chunks (settle_and_render (Some h) (Json cs) s) = cs)"
proof (intro conjI impI)
  assume r: "resolveDocument docs docId = Some d \<and> api (filename d) pg = Json cs"
  then have L: "\<And>k. loadDocument_rendered k (Catalog docs) api docId pg s =
      scrollEffect k (s\<lparr>loading := False, document := Some d, currentPage := pg,
              requests := requests s @ [(filename d, pg)], chunks := cs\<rparr>)"
    by (simp add: loadDocument_rendered_def loadDocument_resolved)
  show "timers (loadDocument_rendered None (Catalog docs) api docId pg s) = timers s"
    by (simp add: L scrollEffect_def truthy_def)
  show "chunks (loadDocument_rendered (Some h) (Catalog docs) api docId pg s) = cs"
    by (simp add: L scrollEffect_def)
  { assume "h \<noteq> [] \<and> list_ex (\<lambda>c. chunk_id c = h) cs"
    then show "timers (loadDocument_rendered (Some h) (Catalog docs) api docId pg s)
                 = timers s @ [300]"
      using assms by (simp add: L scrollEffect_def truthy_def highlight_mounted_def) }
  { assume n: "\<not> list_ex (\<lambda>c. chunk_id c = h) cs"
    then show "timers (loadDocument_rendered (Some h) (Catalog docs) api docId pg s) = timers s"
      by (simp add: L scrollEffect_def truthy_def highlight_mounted_def)
    from n show "error (loadDocument_rendered (Some h) (Catalog docs) api docId pg s) = None"
      using assms by (simp add: L scrollEffect_def truthy_def highlight_mounted_def) }
next
  assume l: "\<not> loading s"
  show "timers (settle_and_render None (Json cs) s) = timers s"
    by (simp add: settle_and_render_def scrollEffect_def truthy_def loadPageChunks_settle_def)
  show "chunks (settle_and_render (Some h) (Json cs) s) = cs"
    by (simp add: settle_and_render_def scrollEffect_def loadPageChunks_settle_def)
  { assume "h \<noteq> [] \<and> list_ex (\<lambda>c. chunk_id c = h) cs"
    then show "timers (settle_and_render (Some h) (Json cs) s) = timers s @ [300]"
      using assms l
      by (simp add: settle_and_render_def scrollEffect_def truthy_def highlight_mounted_def
          loadPageChunks_settle_def) }
  { assume n: "\<not> list_ex (\<lambda>c. chunk_id c = h) cs"
    then show "timers (settle_and_render (Some h) (Json cs) s) = timers s"
      by (simp add: settle_and_render_def scrollEffect_def truthy_def highlight_mounted_def
          loadPageChunks_settle_def)
    from n show "error (settle_and_render (Some h) (Json cs) s) = None"
      using assms
      by (simp add: settle_and_render_def scrollEffect_def truthy_def highlight_mounted_def
          loadPageChunks_settle_def) }
qed

text \<open>
  The theorem for the highlight \<open>c9\<close>: opening the deep link to page 2, which holds the
  chunk, and to page 3, which does not; and the same two replies arriving in the
  document view.
\<close>

theorem scroll_scheduled_on_every_load_witness:
  "error initial = None \<and> loading initial \<and>
   resolveDocument [policy_doc] ''policy.pdf'' = Some policy_doc \<and>
   policy_api (filename policy_doc) (Num 2) = Json [chunk_c9] \<and>
   ''c9'' \<noteq> [] \<and> list_ex (\<lambda>c. chunk_id c = ''c9'') [chunk_c9] \<and>
   timers (loadDocument_rendered (Some ''c9'') (Catalog [policy_doc]) policy_api ''policy.pdf''
      (Num 2) initial) = [300] \<and>
   error ready_p1 = None \<and> \<not> loading ready_p1 \<and>
   timers (settle_and_render (Some ''c9'') (Json [chunk_c9]) ready_p1) = [300] \<and>
   policy_api (filename policy_doc) (Num 3) = Json [chunk_c12] \<and>
   \<not> list_ex (\<lambda>c. chunk_id c = ''c9'') [chunk_c12] \<and>
   timers (loadDocument_rendered (Some ''c9'') (Catalog [policy_doc]) policy_api ''policy.pdf''
      (Num 3) initial) = [] \<and>
   timers (settle_and_render (Some ''c9'') (Json [chunk_c12]) ready_p1) = []"
proof -
  have ei: "error initial = None" and li: "loading initial" and ti: "timers initial = []"
    by (simp_all add: initial_def)
  have e: "error ready_p1 = None" and l: "\<not> loading ready_p1" and t: "timers ready_p1 = []"
    by (simp_all add: ready_p1_def)
  have r: "resolveDocument [policy_doc] ''policy.pdf'' = Some policy_doc" by code_simp
  have a2: "policy_api (filename policy_doc) (Num 2) = Json [chunk_c9]"
    by (simp add: policy_api_def policy_doc_def)
  have a3: "policy_api (filename policy_doc) (Num 3) = Json [chunk_c12]"
    by (simp add: policy_api_def policy_doc_def)
  have m: "''c9'' \<noteq> []" "list_ex (\<lambda>c. chunk_id c = ''c9'') [chunk_c9]"
    by (simp_all add: chunk_c9_def)
  have n: "\<not> list_ex (\<lambda>c. chunk_id c = ''c9'') [chunk_c12]" by (simp add: chunk_c12_def)
  from r a2 m scroll_scheduled_on_every_load [OF ei, of "[policy_doc]" "''policy.pdf''"
      policy_doc policy_api "Num 2" "[chunk_c9]" "''c9''"]
  have d1: "timers (loadDocument_rendered (Some ''c9'') (Catalog [policy_doc]) policy_api
      ''policy.pdf'' (Num 2) initial) = timers initial @ [300]"
    by blast
  from r a3 n scroll_scheduled_on_every_load [OF ei, of "[policy_doc]" "''policy.pdf''"
      policy_doc policy_api "Num 3" "[chunk_c12]" "''c9''"]
  have d2: "timers (loadDocument_rendered (Some ''c9'') (Catalog [policy_doc]) policy_api
      ''policy.pdf'' (Num 3) initial) = timers initial"
    by blast
  from l m scroll_scheduled_on_every_load [OF e, of "[]" "[]" policy_doc policy_api "Num 2"
      "[chunk_c9]" "''c9''"]
  have p1: "timers (settle_and_render (Some ''c9'') (Json [chunk_c9]) ready_p1)
      = timers ready_p1 @ [300]"
    by blast
  from l n scroll_scheduled_on_every_load [OF e, of "[]" "[]" policy_doc policy_api "Num 3"
      "[chunk_c12]" "''c9''"]
  have p2: "timers (settle_and_render (Some ''c9'') (Json [chunk_c12]) ready_p1)
      = timers ready_p1"
    by blast
  show ?thesis
    by (intro conjI ei li r a2 a3 m n e l d1 [unfolded ti, simplified] d2 [unfolded ti]
        p1 [unfolded t, simplified] p2 [unfolded t])
qed

text \<open>
  A repeated load scrolls again: opening the deep link to page 2 with highlight \<open>c9\<close>
  starts one timer; going to page 3 and back to page 2 loads the same page with the same
  highlight again and starts a second timer.
\<close>

theorem repeated_load_scrolls_again_counterexample:
  "loadDocument_rendered (Some ''c9'') (Catalog [policy_doc]) policy_api ''policy.pdf'' (Num 2)
     initial = ready_p2 \<and>
   timers ready_p2 = [300] \<and>
   timers (goToPage_rendered (Some ''c9'') policy_api (Num 3) ready_p2) = [300] \<and>
   chunks (goToPage_rendered (Some ''c9'') policy_api (Num 2)
     (goToPage_rendered (Some ''c9'') policy_api (Num 3) ready_p2)) = [chunk_c9] \<and>
   timers (goToPage_rendered (Some ''c9'') policy_api (Num 2)
     (goToPage_rendered (Some ''c9'') policy_api (Num 3) ready_p2)) = [300, 300]"
  by code_simp

section \<open>Properties of the citation markers\<close>

text \<open>
  A match at the head of a text is a marker followed by the rest of the text, and stays
  a match when the text is extended; text before an opening bracket cannot complete a
  match with what follows the bracket. So the split puts a literal piece without a match
  in one part, and cuts a text at its first marker. \<open>search_marker\<close> finds nothing
  exactly in the texts that hold no marker.
\<close>

lemma marker_at_SomeD:
  assumes "marker_at s = Some (ds, rest)"
  shows "s = marker ds @ rest \<and> ds \<noteq> [] \<and> list_all is_digit ds"
proof -
  from assms obtain c cs where s: "s = c # cs" by (cases s) (auto simp: marker_at_def)
  from assms s have c: "c = CHR ''[''" and ds: "ds = takeWhile is_digit cs" and ne: "ds \<noteq> []"
    and t1: "take 1 (dropWhile is_digit cs) = '']''" and r: "rest = drop 1 (dropWhile is_digit cs)"
    by (auto simp: marker_at_def split: if_splits)
  have "dropWhile is_digit cs = take 1 (dropWhile is_digit cs) @ drop 1 (dropWhile is_digit cs)"
    by simp
  with t1 r have dw: "dropWhile is_digit cs = CHR '']'' # rest" by simp
  have "cs = takeWhile is_digit cs @ dropWhile is_digit cs" by simp
  with ds dw have "cs = ds @ CHR '']'' # rest" by simp
  moreover have "list_all is_digit ds" unfolding ds list_all_iff by (auto dest: set_takeWhileD)
  ultimately show ?thesis using s c ne by (simp add: marker_def)
qed

lemma not_digit_bracket: "\<not> is_digit CHR '']'' \<and> \<not> is_digit CHR ''[''"
  by (simp add: is_digit_def)

lemma marker_at_marker:
  assumes "ds \<noteq> []" and "list_all is_digit ds"
  shows "marker_at (marker ds @ rest) = Some (ds, rest)"
proof -
  have a: "\<forall>x\<in>set ds. is_digit x" using assms(2) by (simp add: list_all_iff)
  have tw: "takeWhile is_digit (ds @ CHR '']'' # rest) = ds"
    using a not_digit_bracket by (intro takeWhile_stop) auto
  have dw: "dropWhile is_digit (ds @ CHR '']'' # rest) = CHR '']'' # rest"
    using a not_digit_bracket by (intro dropWhile_stop) auto
  show ?thesis using assms(1) by (simp add: marker_at_def marker_def tw dw)
qed

lemma marker_at_extend:
  assumes "marker_at x = Some (ds, r)"
  shows "marker_at (x @ y) = Some (ds, r @ y)"
proof -
  from marker_at_SomeD [OF assms] have "x = marker ds @ r" and "ds \<noteq> []" and "list_all is_digit ds"
    by auto
  then show ?thesis using marker_at_marker [of ds "r @ y"] by simp
qed

lemma marker_at_before_bracket:
  assumes "marker_at x = None" and "x \<noteq> []"
  shows "marker_at (x @ CHR ''['' # y) = None"
proof (rule ccontr)
  assume "marker_at (x @ CHR ''['' # y) \<noteq> None"
  then obtain ds r where m: "marker_at (x @ CHR ''['' # y) = Some (ds, r)" by auto
  from marker_at_SomeD [OF m] have e: "x @ CHR ''['' # y = CHR ''['' # ds @ CHR '']'' # r"
    and ne: "ds \<noteq> []" and dg: "list_all is_digit ds" by (auto simp: marker_def)
  from assms(2) obtain c cs where x: "x = c # cs" by (cases x) auto
  with e have c: "c = CHR ''[''" and e': "cs @ CHR ''['' # y = ds @ CHR '']'' # r" by auto
  have "\<exists>r'. cs = ds @ CHR '']'' # r'"
  proof (cases "length cs \<le> length ds")
    case True
    from e' have "take (length cs) (cs @ CHR ''['' # y) = take (length cs) (ds @ CHR '']'' # r)"
      by simp
    with True have p: "cs = take (length cs) ds" by simp
    from e' have "(cs @ CHR ''['' # y) ! length cs = (ds @ CHR '']'' # r) ! length cs" by simp
    then have b: "CHR ''['' = (ds @ CHR '']'' # r) ! length cs" by simp
    show ?thesis
    proof (cases "length cs < length ds")
      case True
      with b have "CHR ''['' = ds ! length cs" by (simp add: nth_append)
      moreover from True dg have "is_digit (ds ! length cs)" by (simp add: list_all_length)
      ultimately show ?thesis using not_digit_bracket by simp
    next
      case False
      with \<open>length cs \<le> length ds\<close> have "length cs = length ds" by simp
      with b have "CHR ''['' = CHR '']''" by (simp add: nth_append)
      then show ?thesis by simp
    qed
  next
    case False
    then have l: "length ds < length cs" by simp
    from e' have "drop (length ds) (cs @ CHR ''['' # y) = drop (length ds) (ds @ CHR '']'' # r)"
      by simp
    with l have d: "drop (length ds) cs @ CHR ''['' # y = CHR '']'' # r" by simp
    from e' have "take (length ds) (cs @ CHR ''['' # y) = take (length ds) (ds @ CHR '']'' # r)"
      by simp
    with l have t: "take (length ds) cs = ds" by simp
    from l have "drop (length ds) cs \<noteq> []" by simp
    then obtain z zs where z: "drop (length ds) cs = z # zs" by (cases "drop (length ds) cs") auto
    with d have "z = CHR '']''" by simp
    with z t have "cs = ds @ CHR '']'' # zs"
      by (metis append_take_drop_id)
    then show ?thesis by blast
  qed
  then obtain r' where "cs = ds @ CHR '']'' # r'" by blast
  with x c have "x = marker ds @ r'" by (simp add: marker_def)
  with marker_at_marker [OF ne dg, of r'] assms(1) show False by simp
qed

lemma search_marker_None_Cons:
  "search_marker (c # cs) = None \<longleftrightarrow> marker_at (c # cs) = None \<and> search_marker cs = None"
  by (auto split: option.splits)

lemma split_markers_Nil: "split_markers lit [] = [lit]"
  by (simp add: split_markers.simps)

lemma split_markers_skip:
  "marker_at (c # cs) = None \<Longrightarrow> split_markers lit (c # cs) = split_markers (lit @ [c]) cs"
  by (simp add: split_markers.simps)

lemma split_markers_hit:
  assumes "ds \<noteq> []" and "list_all is_digit ds"
  shows "split_markers lit (marker ds @ rest) = lit # marker ds # split_markers [] rest"
proof -
  have m: "marker_at (marker ds @ rest) = Some (ds, rest)" by (rule marker_at_marker [OF assms])
  have "marker ds @ rest = CHR ''['' # (ds @ '']'' @ rest)" by (simp add: marker_def)
  with m show ?thesis by (simp add: split_markers.simps)
qed

lemma split_markers_literal:
  "search_marker s = None \<Longrightarrow> split_markers lit s = [lit @ s]"
proof (induction s arbitrary: lit)
  case Nil
  then show ?case by (simp add: split_markers_Nil)
next
  case (Cons c cs)
  from Cons.prems [unfolded search_marker_None_Cons]
  have m: "marker_at (c # cs) = None" and s: "search_marker cs = None" by blast+
  from Cons.IH [OF s, of "lit @ [c]"] m show ?case by (simp add: split_markers_skip)
qed

lemma split_markers_first:
  assumes "search_marker s = None" and "ds \<noteq> []" and "list_all is_digit ds"
  shows "split_markers lit (s @ marker ds @ rest) = (lit @ s) # marker ds # split_markers [] rest"
  using assms(1)
proof (induction s arbitrary: lit)
  case Nil
  then show ?case by (simp add: split_markers_hit [OF assms(2,3)])
next
  case (Cons c cs)
  from Cons.prems [unfolded search_marker_None_Cons]
  have m: "marker_at (c # cs) = None" and s: "search_marker cs = None" by blast+
  have "marker_at ((c # cs) @ CHR ''['' # (ds @ '']'' @ rest)) = None"
    by (rule marker_at_before_bracket [OF m]) simp
  then have "marker_at (c # (cs @ marker ds @ rest)) = None" by (simp add: marker_def)
  then have "split_markers lit ((c # cs) @ marker ds @ rest)
      = split_markers (lit @ [c]) (cs @ marker ds @ rest)"
    by (simp add: split_markers_skip)
  with Cons.IH [OF s, of "lit @ [c]"] show ?case by simp
qed

lemma search_marker_marker:
  assumes "ds \<noteq> []" and "list_all is_digit ds"
  shows "search_marker (marker ds) = Some ds"
proof -
  have "marker_at (marker ds @ []) = Some (ds, [])" by (rule marker_at_marker [OF assms])
  moreover have "marker ds = CHR ''['' # (ds @ '']'')" by (simp add: marker_def)
  ultimately show ?thesis by simp
qed

lemma search_marker_SomeD:
  "search_marker s = Some ds \<Longrightarrow>
     \<exists>lit rest. s = lit @ marker ds @ rest \<and> search_marker lit = None \<and>
       ds \<noteq> [] \<and> list_all is_digit ds"
proof (induction s)
  case Nil
  then show ?case by simp
next
  case (Cons c cs)
  show ?case
  proof (cases "marker_at (c # cs)")
    case (Some p)
    obtain ds' rest where p: "p = (ds', rest)" by (cases p)
    with Some Cons.prems have "ds' = ds" by simp
    with Some p marker_at_SomeD [of "c # cs" ds rest]
    have "c # cs = [] @ marker ds @ rest \<and> search_marker [] = None \<and> ds \<noteq> [] \<and> list_all is_digit ds"
      by simp
    then show ?thesis by blast
  next
    case None
    with Cons.prems have "search_marker cs = Some ds" by simp
    with Cons.IH obtain lit rest where cs: "cs = lit @ marker ds @ rest"
      and l: "search_marker lit = None" and d: "ds \<noteq> []" "list_all is_digit ds" by blast
    have "marker_at (c # lit) = None"
    proof (rule ccontr)
      assume "marker_at (c # lit) \<noteq> None"
      then obtain a b where "marker_at (c # lit) = Some (a, b)" by auto
      from marker_at_extend [OF this, of "marker ds @ rest"] None cs show False by simp
    qed
    with l have "search_marker (c # lit) = None" unfolding search_marker_None_Cons by blast
    with cs d have "c # cs = (c # lit) @ marker ds @ rest \<and> search_marker (c # lit) = None \<and>
        ds \<noteq> [] \<and> list_all is_digit ds" by simp
    then show ?thesis by blast
  qed
qed

lemma search_marker_None_iff:
  "search_marker s = None \<longleftrightarrow>
     \<not> (\<exists>lit ds rest. s = lit @ marker ds @ rest \<and> ds \<noteq> [] \<and> list_all is_digit ds)"
proof
  assume n: "search_marker s = None"
  show "\<not> (\<exists>lit ds rest. s = lit @ marker ds @ rest \<and> ds \<noteq> [] \<and> list_all is_digit ds)"
  proof
    assume "\<exists>lit ds rest. s = lit @ marker ds @ rest \<and> ds \<noteq> [] \<and> list_all is_digit ds"
    then obtain lit ds rest where s: "s = lit @ marker ds @ rest"
      and d: "ds \<noteq> []" "list_all is_digit ds" by blast
    have "search_marker (lit @ marker ds @ rest) \<noteq> None"
    proof (induction lit)
      case Nil
      have "marker_at (marker ds @ rest) = Some (ds, rest)" by (rule marker_at_marker [OF d])
      moreover have "marker ds @ rest = CHR ''['' # (ds @ '']'' @ rest)" by (simp add: marker_def)
      ultimately show ?case by simp
    next
      case (Cons c cs)
      then show ?case by (cases "marker_at (c # cs @ marker ds @ rest)") auto
    qed
    with n s show False by simp
  qed
next
  assume a: "\<not> (\<exists>lit ds rest. s = lit @ marker ds @ rest \<and> ds \<noteq> [] \<and> list_all is_digit ds)"
  show "search_marker s = None"
  proof (rule ccontr)
    assume "search_marker s \<noteq> None"
    then obtain ds where "search_marker s = Some ds" by auto
    from search_marker_SomeD [OF this] a show False by blast
  qed
qed

text \<open>
  The digits of a marker parse to the integer they denote, or to an untracked Number
  when that integer is \<open>2^53\<close> or more. Printing the integer gives the digits back
  exactly when they are not padded, and a shorter string when they are.
\<close>

lemma renderPart_literal: "search_marker lit = None \<Longrightarrow> renderPart cits lit = Span lit"
  by (simp add: renderPart_def)

lemma renderPart_marker:
  assumes "ds \<noteq> []" and "list_all is_digit ds"
  shows "renderPart cits (marker ds) =
     (case parseInt ds of
        Num n \<Rightarrow> (case find (\<lambda>c. citation_number c = n) cits of
                    Some c \<Rightarrow> Anchor c n
                  | None \<Rightarrow> Span (marker ds))
      | _ \<Rightarrow> Span (marker ds))"
  by (simp add: renderPart_def search_marker_marker [OF assms])

lemma parseInt_digits_cases:
  assumes "ds \<noteq> []" and "list_all is_digit ds"
  shows "parseInt ds = Num (digits_value 10 ds) \<or> parseInt ds = Unsafe False"
  by (simp add: parseInt_digits [OF assms] to_number_def)

lemma digit_char_digit_val:
  assumes "is_digit d"
  shows "digit_char (digit_val d) = d" and "digit_val d < 10"
    and "digit_val d = 0 \<longleftrightarrow> d = CHR ''0''"
proof -
  from assms have r: "48 \<le> (of_char d :: nat)" "(of_char d :: nat) \<le> 57"
    by (simp_all add: is_digit_def)
  then have v: "digit_val d = of_char d - 48" by (simp add: digit_val_def)
  from r v show "digit_val d < 10" by simp
  from r v have "digit_val d < 10" and "48 + digit_val d = of_char d" by simp_all
  then have "digit_char (digit_val d) = char_of (of_char d :: nat)"
    by (simp add: digit_char_def)
  then show "digit_char (digit_val d) = d" by simp
  have "(of_char d :: nat) = 48 \<longleftrightarrow> (of_char d :: nat) = of_char CHR ''0''" by simp
  also have "\<dots> \<longleftrightarrow> d = CHR ''0''" by (rule of_char_eq_iff)
  finally show "digit_val d = 0 \<longleftrightarrow> d = CHR ''0''" using r v by auto
qed

lemma digits_value_nonneg: "0 \<le> digits_value 10 ds"
  by (induction ds rule: rev_induct) (simp_all add: digits_value_snoc, simp add: digits_value_def)

lemma digits_value_pos:
  "ds \<noteq> [] \<Longrightarrow> list_all is_digit ds \<Longrightarrow> hd ds \<noteq> CHR ''0'' \<Longrightarrow> 0 < digits_value 10 ds"
proof (induction ds rule: rev_induct)
  case Nil
  then show ?case by simp
next
  case (snoc d xs)
  show ?case
  proof (cases xs)
    case Nil
    with snoc.prems have "is_digit d" and "d \<noteq> CHR ''0''" by simp_all
    then have "0 < digit_val d" using digit_char_digit_val(3) [of d] by simp
    with Nil show ?thesis by (simp add: digits_value_def)
  next
    case (Cons a as)
    with snoc have "0 < digits_value 10 xs" by simp
    then show ?thesis by (simp add: digits_value_snoc)
  qed
qed

lemma show_nat_step:
  assumes "0 < v" and "is_digit d"
  shows "show_nat (v * 10 + int (digit_val d)) = show_nat v @ [d]"
proof -
  have lt: "digit_val d < 10" using assms(2) by (rule digit_char_digit_val(2))
  have big: "\<not> v * 10 + int (digit_val d) < 10" using assms(1) by arith
  have dv: "(v * 10 + int (digit_val d)) div 10 = v" using lt by simp
  have md: "(v * 10 + int (digit_val d)) mod 10 = int (digit_val d)" using lt by simp
  have "show_nat (v * 10 + int (digit_val d)) = show_nat v @ [digit_char (nat (int (digit_val d)))]"
    using show_nat_big [OF big] by (simp only: dv md)
  then show ?thesis using assms(2) by (simp add: digit_char_digit_val(1))
qed

lemma show_nat_digit: "is_digit d \<Longrightarrow> show_nat (int (digit_val d)) = [d]"
  using digit_char_digit_val(1,2) [of d] by (simp add: show_nat_small)

lemma show_nat_digits_value:
  "ds \<noteq> [] \<Longrightarrow> list_all is_digit ds \<Longrightarrow> \<not> padded ds \<Longrightarrow>
   show_nat (digits_value 10 ds) = ds"
proof (induction ds rule: rev_induct)
  case Nil
  then show ?case by simp
next
  case (snoc d xs)
  from snoc.prems have d: "is_digit d" by simp
  show ?case
  proof (cases xs)
    case Nil
    then have "digits_value 10 (xs @ [d]) = int (digit_val d)" by (simp add: digits_value_def)
    with Nil d show ?thesis by (simp add: show_nat_digit)
  next
    case (Cons a as)
    with snoc.prems have h: "hd xs \<noteq> CHR ''0''" and x: "xs \<noteq> []" "list_all is_digit xs"
      by (auto simp: padded_def split: list.splits)
    have np: "\<not> padded xs" using h by (auto simp: padded_def split: list.splits)
    from snoc.IH [OF x np] have ih: "show_nat (digits_value 10 xs) = xs" .
    from digits_value_pos [OF x h] have pos: "0 < digits_value 10 xs" .
    show ?thesis using show_nat_step [OF pos d] ih by (simp add: digits_value_snoc)
  qed
qed

lemma show_nat_digits_value_length:
  "ds \<noteq> [] \<Longrightarrow> list_all is_digit ds \<Longrightarrow> length (show_nat (digits_value 10 ds)) \<le> length ds"
proof (induction ds rule: rev_induct)
  case Nil
  then show ?case by simp
next
  case (snoc d xs)
  from snoc.prems have d: "is_digit d" by simp
  show ?case
  proof (cases "digits_value 10 xs = 0")
    case True
    then have "digits_value 10 (xs @ [d]) = int (digit_val d)" by (simp add: digits_value_snoc)
    then show ?thesis using d by (simp add: show_nat_digit)
  next
    case False
    then have pos: "0 < digits_value 10 xs" using digits_value_nonneg [of xs] by simp
    from False have x: "xs \<noteq> []" by (auto simp: digits_value_def)
    with snoc have "length (show_nat (digits_value 10 xs)) \<le> length xs" by simp
    then show ?thesis using show_nat_step [OF pos d] by (simp add: digits_value_snoc)
  qed
qed

lemma digits_value_zero_Cons: "digits_value 10 (CHR ''0'' # ds) = digits_value 10 ds"
  by (simp add: digits_value_def digit_val_def)

lemma show_nat_padded_shorter:
  assumes "padded ds" and "list_all is_digit ds"
  shows "length (show_nat (digits_value 10 ds)) < length ds"
proof -
  from assms(1) obtain b r where ds: "ds = CHR ''0'' # b # r"
    by (auto simp: padded_def split: list.splits)
  with assms(2) have "list_all is_digit (b # r)" by simp
  then have "length (show_nat (digits_value 10 (b # r))) \<le> length (b # r)"
    by (intro show_nat_digits_value_length) simp_all
  then show ?thesis by (simp add: ds digits_value_zero_Cons)
qed

text \<open>
  What the segment of a marker displays: fewer characters than the marker when the
  marker is padded and becomes a link, the marker itself otherwise.
\<close>

lemma displayed_marker_cases:
  assumes "ds \<noteq> []" and "list_all is_digit ds"
  shows "(padded ds \<and> (case renderPart cits (marker ds) of Anchor c n \<Rightarrow> True | Span s \<Rightarrow> False)
           \<longrightarrow> length (displayed (renderPart cits (marker ds))) < length (marker ds)) \<and>
         (\<not> (padded ds \<and> (case renderPart cits (marker ds) of Anchor c n \<Rightarrow> True | Span s \<Rightarrow> False))
           \<longrightarrow> displayed (renderPart cits (marker ds)) = marker ds)"
proof (cases "renderPart cits (marker ds)")
  case (Span s)
  then have "s = marker ds"
    using parseInt_digits_cases [OF assms]
    by (auto simp: renderPart_marker [OF assms] split: option.splits jsnum.splits)
  with Span show ?thesis by (simp add: displayed_def)
next
  case (Anchor c n)
  then have n: "n = digits_value 10 ds"
    using parseInt_digits_cases [OF assms]
    by (auto simp: renderPart_marker [OF assms] split: option.splits jsnum.splits)
  have nn: "0 \<le> n" unfolding n by (rule digits_value_nonneg)
  then have d: "displayed (renderPart cits (marker ds)) = marker (show_nat n)"
    by (simp add: Anchor displayed_def show_int_def) (simp add: marker_def)
  have isl: "(case renderPart cits (marker ds) of Anchor c n \<Rightarrow> True | Span s \<Rightarrow> False)"
    by (simp add: Anchor)
  show ?thesis
  proof (cases "padded ds")
    case True
    have "length (displayed (renderPart cits (marker ds))) < length (marker ds)"
      unfolding d n using show_nat_padded_shorter [OF True assms(2)] by (simp add: marker_def)
    then show ?thesis using True isl by blast
  next
    case False
    have "displayed (renderPart cits (marker ds)) = marker ds"
      unfolding d n show_nat_digits_value [OF assms False] ..
    then show ?thesis using False by blast
  qed
qed

lemma renderParts_literal: "search_marker lit = None \<Longrightarrow> renderParts lit cits = [Span lit]"
  by (simp add: renderParts_def split_markers_literal renderPart_literal)

lemma renderParts_first:
  assumes "search_marker lit = None" and "ds \<noteq> []" and "list_all is_digit ds"
  shows "renderParts (lit @ marker ds @ rest) cits
           = Span lit # renderPart cits (marker ds) # renderParts rest cits"
  using split_markers_first [OF assms, of "[]" rest]
  by (simp add: renderParts_def renderPart_literal [OF assms(1)])

text \<open>
  \<open>padded_link\<close> follows the split: nothing is found in a piece without a match nor
  inside a marker, so a text cut at its first marker has a padded link exactly when that
  marker is one or the rest has one.
\<close>

lemma marker_at_not_bracket: "c \<noteq> CHR ''['' \<Longrightarrow> marker_at (c # cs) = None"
  by (simp add: marker_at_def)

lemma padded_link_literal: "search_marker lit = None \<Longrightarrow> \<not> padded_link cits lit"
proof (induction lit)
  case Nil
  then show ?case by simp
next
  case (Cons c cs)
  from Cons.prems [unfolded search_marker_None_Cons]
  have m: "marker_at (c # cs) = None" and s: "search_marker cs = None" by blast+
  from Cons.IH [OF s] m show ?case by simp
qed

lemma padded_link_digits:
  "list_all is_digit ds \<Longrightarrow> padded_link cits (ds @ x) = padded_link cits x"
proof (induction ds)
  case Nil
  then show ?case by simp
next
  case (Cons d ds)
  then have "d \<noteq> CHR ''[''" using not_digit_bracket by auto
  then have "marker_at (d # ds @ x) = None" by (rule marker_at_not_bracket)
  with Cons show ?case by simp
qed

lemma padded_link_marker:
  assumes "ds \<noteq> []" and "list_all is_digit ds"
  shows "padded_link cits (marker ds @ rest) =
     ((padded ds \<and> (case renderPart cits (marker ds) of Anchor c n \<Rightarrow> True | Span s \<Rightarrow> False)) \<or>
      padded_link cits rest)"
proof -
  have m: "marker_at (CHR ''['' # ds @ CHR '']'' # rest) = Some (ds, rest)"
    using marker_at_marker [OF assms, of rest] by (simp add: marker_def)
  have "marker_at (CHR '']'' # rest) = None" by (rule marker_at_not_bracket) simp
  then have "padded_link cits (CHR '']'' # rest) = padded_link cits rest" by simp
  with padded_link_digits [OF assms(2), of cits "CHR '']'' # rest"]
  have t: "padded_link cits (ds @ CHR '']'' # rest) = padded_link cits rest" by simp
  have "marker ds @ rest = CHR ''['' # ds @ CHR '']'' # rest" by (simp add: marker_def)
  then show ?thesis using m t by simp
qed

lemma padded_link_first:
  assumes "search_marker lit = None" and "ds \<noteq> []" and "list_all is_digit ds"
  shows "padded_link cits (lit @ marker ds @ rest) =
     ((padded ds \<and> (case renderPart cits (marker ds) of Anchor c n \<Rightarrow> True | Span s \<Rightarrow> False)) \<or>
      padded_link cits rest)"
  using assms(1)
proof (induction lit)
  case Nil
  then show ?case by (simp add: padded_link_marker [OF assms(2,3)])
next
  case (Cons c cs)
  from Cons.prems [unfolded search_marker_None_Cons]
  have m: "marker_at (c # cs) = None" and s: "search_marker cs = None" by blast+
  have "marker_at ((c # cs) @ CHR ''['' # (ds @ '']'' @ rest)) = None"
    by (rule marker_at_before_bracket [OF m]) simp
  then have "marker_at (c # (cs @ marker ds @ rest)) = None" by (simp add: marker_def)
  with Cons.IH [OF s] show ?case by simp
qed

lemma renderParts_length:
  "length (concat (map displayed (renderParts s cits))) \<le> length s"
proof (induction "length s" arbitrary: s rule: less_induct)
  case less
  show ?case
  proof (cases "search_marker s")
    case None
    then show ?thesis by (simp add: renderParts_literal displayed_def)
  next
    case (Some ds)
    from search_marker_SomeD [OF Some] obtain lit rest where s: "s = lit @ marker ds @ rest"
      and l: "search_marker lit = None" and d: "ds \<noteq> []" "list_all is_digit ds" by blast
    have "length rest < length s" using s by (simp add: marker_def)
    then have ih: "length (concat (map displayed (renderParts rest cits))) \<le> length rest"
      using less.hyps by blast
    have "length (displayed (renderPart cits (marker ds))) \<le> length (marker ds)"
      using displayed_marker_cases [OF d, of cits] by (metis less_imp_le order_refl)
    with ih show ?thesis
      unfolding s renderParts_first [OF l d] by (simp add: displayed_def)
  qed
qed

lemma renderParts_reconstruct:
  "concat (map displayed (renderParts s cits)) = s \<longleftrightarrow> \<not> padded_link cits s"
proof (induction "length s" arbitrary: s rule: less_induct)
  case less
  show ?case
  proof (cases "search_marker s")
    case None
    then show ?thesis by (simp add: renderParts_literal displayed_def padded_link_literal)
  next
    case (Some ds)
    from search_marker_SomeD [OF Some] obtain lit rest where s: "s = lit @ marker ds @ rest"
      and l: "search_marker lit = None" and d: "ds \<noteq> []" "list_all is_digit ds" by blast
    have "length rest < length s" using s by (simp add: marker_def)
    then have ih: "concat (map displayed (renderParts rest cits)) = rest
        \<longleftrightarrow> \<not> padded_link cits rest"
      using less.hyps by blast
    let ?X = "displayed (renderPart cits (marker ds))"
    let ?R = "concat (map displayed (renderParts rest cits))"
    have c: "concat (map displayed (renderParts s cits)) = lit @ ?X @ ?R"
      unfolding s renderParts_first [OF l d] by (simp add: displayed_def)
    show ?thesis
    proof (cases "padded ds \<and>
        (case renderPart cits (marker ds) of Anchor c n \<Rightarrow> True | Span s \<Rightarrow> False)")
      case True
      with displayed_marker_cases [OF d, of cits]
      have "length ?X < length (marker ds)" by blast
      moreover have "length ?R \<le> length rest" by (rule renderParts_length)
      ultimately have "length (lit @ ?X @ ?R) < length s" by (simp add: s)
      then have "lit @ ?X @ ?R \<noteq> s" by auto
      moreover have "padded_link cits s" using True by (simp add: s padded_link_first [OF l d])
      ultimately show ?thesis by (simp add: c)
    next
      case False
      with displayed_marker_cases [OF d, of cits] have x: "?X = marker ds" by blast
      have "padded_link cits s = padded_link cits rest"
        unfolding s padded_link_first [OF l d] using False by blast
      moreover have "(lit @ ?X @ ?R = s) = (?R = rest)" by (simp add: x s)
      ultimately show ?thesis unfolding c using ih by simp
    qed
  qed
qed

text \<open>
  C4, as the code has it, for citations numbered below \<open>2^53\<close> in magnitude. An empty
  answer yields \<open>null\<close>; a non-empty answer always yields segments, never an exception.
  The segments follow the text from left to right: a text without a marker is one
  literal segment; a text that starts with a marker-free piece followed by a marker
  gives that piece as a literal segment, then the segment of the marker, then the
  segments of the rest. A marker whose parsed number no citation carries is the literal
  text of the marker, unchanged; so is a marker whose digits denote \<open>2^53\<close> or more. A
  marker whose parsed number some citation carries is a link to a citation with that
  number, and it displays the number as \<open>parseInt\<close> read it, in brackets: leading zeros
  are not displayed. The displayed segments, concatenated, are the answer text exactly
  when no marker that becomes a link is written with a leading zero.
\<close>

theorem renderAnswerWithLinks_segments:
  assumes "\<forall>c\<in>set cits. \<bar>citation_number c\<bar> < 2 ^ 53"
  shows
  "renderAnswerWithLinks [] cits = None \<and>
   (answer \<noteq> [] \<longrightarrow> renderAnswerWithLinks answer cits = Some (renderParts answer cits)) \<and>
   (concat (map displayed (renderParts answer cits)) = answer \<longleftrightarrow> \<not> padded_link cits answer) \<and>
   (search_marker lit = None \<longrightarrow> renderParts lit cits = [Span lit]) \<and>
   (search_marker lit = None \<and> ds \<noteq> [] \<and> list_all is_digit ds \<longrightarrow>
      renderParts (lit @ marker ds @ rest) cits
        = Span lit # renderPart cits (marker ds) # renderParts rest cits \<and>
      ((\<forall>c\<in>set cits. Num (citation_number c) \<noteq> parseInt ds) \<longrightarrow>
         renderPart cits (marker ds) = Span (marker ds)) \<and>
      ((\<exists>c\<in>set cits. Num (citation_number c) = parseInt ds) \<longrightarrow>
         (\<exists>c\<in>set cits. Num (citation_number c) = parseInt ds \<and>
            renderPart cits (marker ds) = Anchor c (citation_number c)) \<and>
         parseInt ds = Num (digits_value 10 ds) \<and>
         displayed (renderPart cits (marker ds)) = marker (show_int (digits_value 10 ds))))"
proof (intro conjI impI)
  show "renderAnswerWithLinks [] cits = None" by (simp add: renderAnswerWithLinks_def)
next
  assume "answer \<noteq> []"
  then show "renderAnswerWithLinks answer cits = Some (renderParts answer cits)"
    by (simp add: renderAnswerWithLinks_def)
next
  show "concat (map displayed (renderParts answer cits)) = answer \<longleftrightarrow> \<not> padded_link cits answer"
    by (rule renderParts_reconstruct)
next
  assume "search_marker lit = None"
  then show "renderParts lit cits = [Span lit]" by (rule renderParts_literal)
next
  assume a: "search_marker lit = None \<and> ds \<noteq> [] \<and> list_all is_digit ds"
  then show "renderParts (lit @ marker ds @ rest) cits
        = Span lit # renderPart cits (marker ds) # renderParts rest cits"
    by (intro renderParts_first) simp_all
next
  assume a: "search_marker lit = None \<and> ds \<noteq> [] \<and> list_all is_digit ds"
    and n: "\<forall>c\<in>set cits. Num (citation_number c) \<noteq> parseInt ds"
  from a have d: "ds \<noteq> []" "list_all is_digit ds" by simp_all
  show "renderPart cits (marker ds) = Span (marker ds)"
  proof (cases "parseInt ds")
    case (Num k)
    with n have "find (\<lambda>c. citation_number c = k) cits = None"
      by (auto simp: find_None_iff)
    with Num show ?thesis by (simp add: renderPart_marker [OF d])
  qed (simp_all add: renderPart_marker [OF d])
next
  assume a: "search_marker lit = None \<and> ds \<noteq> [] \<and> list_all is_digit ds"
    and e: "\<exists>c\<in>set cits. Num (citation_number c) = parseInt ds"
  from a have d: "ds \<noteq> []" "list_all is_digit ds" by simp_all
  from e obtain c0 where c0: "c0 \<in> set cits" "parseInt ds = Num (citation_number c0)" by auto
  with parseInt_digits_cases [OF d] have p: "parseInt ds = Num (digits_value 10 ds)" by auto
  let ?n = "digits_value 10 ds"
  from c0 p have "\<exists>c\<in>set cits. citation_number c = ?n" by auto
  then obtain c where f: "find (\<lambda>c. citation_number c = ?n) cits = Some c"
    by (cases "find (\<lambda>c. citation_number c = ?n) cits") (auto simp: find_None_iff)
  then have m: "c \<in> set cits \<and> citation_number c = ?n" by (auto simp: find_Some_iff)
  from f p have r: "renderPart cits (marker ds) = Anchor c ?n"
    by (simp add: renderPart_marker [OF d])
  with m p show "\<exists>c\<in>set cits. Num (citation_number c) = parseInt ds \<and>
      renderPart cits (marker ds) = Anchor c (citation_number c)" by auto
  show "parseInt ds = Num (digits_value 10 ds)" by (rule p)
  from r show "displayed (renderPart cits (marker ds)) = marker (show_int ?n)"
    by (simp add: displayed_def marker_def)
qed

text \<open>
  The theorem for the citation numbered 1: an answer that cites it, the markers \<open>[5]\<close>
  and \<open>[9007199254740993]\<close> that no citation carries, and the padded marker \<open>[05]\<close>,
  which is no link and is displayed unchanged.
\<close>

theorem renderAnswerWithLinks_segments_witness:
  "\<bar>citation_number cit1\<bar> < 2 ^ 53 \<and>
   ''Refunds allowed within 30 days [1].'' \<noteq> [] \<and>
   \<not> padded_link [cit1] ''Refunds allowed within 30 days [1].'' \<and>
   search_marker ''Refunds allowed within 30 days '' = None \<and>
   ''1'' \<noteq> [] \<and> list_all is_digit ''1'' \<and>
   (\<exists>c\<in>set [cit1]. Num (citation_number c) = parseInt ''1'') \<and>
   Num (citation_number cit1) \<noteq> parseInt ''5'' \<and>
   Num (citation_number cit1) \<noteq> parseInt ''9007199254740993'' \<and>
   renderAnswerWithLinks ''Refunds allowed within 30 days [1].'' [cit1]
     = Some [Span ''Refunds allowed within 30 days '', Anchor cit1 1, Span ''.''] \<and>
   concat (map displayed (renderParts ''Refunds allowed within 30 days [1].'' [cit1]))
     = ''Refunds allowed within 30 days [1].'' \<and>
   renderPart [cit1] (marker ''5'') = Span ''[5]'' \<and>
   renderPart [cit1] (marker ''9007199254740993'') = Span ''[9007199254740993]'' \<and>
   \<not> padded_link [cit1] ''see [05]'' \<and>
   concat (map displayed (renderParts ''see [05]'' [cit1])) = ''see [05]''"
proof -
  let ?a = "''Refunds allowed within 30 days [1].''"
  let ?l = "''Refunds allowed within 30 days ''"
  let ?u = "''9007199254740993''"
  have b0: "\<bar>citation_number cit1\<bar> < 2 ^ 53" by (simp add: cit1_def)
  then have b: "\<forall>c\<in>set [cit1]. \<bar>citation_number c\<bar> < 2 ^ 53" by simp
  note t1 = renderAnswerWithLinks_segments [OF b, of ?a ?l "''1''" "''.''"]
  note t2 = renderAnswerWithLinks_segments [OF b, of ?a "[]" "''5''" "[]"]
  note t3 = renderAnswerWithLinks_segments [OF b, of "''see [05]''" "[]" ?u "[]"]
  note t4 = renderAnswerWithLinks_segments [OF b, of ?a "''.''" "''1''" "[]"]
  have p1: "parseInt ''1'' = Num 1" by code_simp
  have p5: "parseInt ''5'' = Num 5" by code_simp
  have pu: "parseInt ?u = Unsafe False" by code_simp
  have h1: "?a \<noteq> []" by simp
  have h2: "\<not> padded_link [cit1] ?a" by code_simp
  have h3: "search_marker ?l = None" by code_simp
  have h4a: "''1'' \<noteq> []" and h4b: "list_all is_digit ''1''" by (simp_all add: is_digit_def)
  have h5: "\<exists>c\<in>set [cit1]. Num (citation_number c) = parseInt ''1''"
    by (simp add: cit1_def p1)
  have h6: "search_marker [] = None \<and> ''5'' \<noteq> [] \<and> list_all is_digit ''5''"
    by (simp add: is_digit_def)
  have h7: "Num (citation_number cit1) \<noteq> parseInt ''5''" by (simp add: cit1_def p5)
  have h8: "search_marker [] = None \<and> ?u \<noteq> [] \<and> list_all is_digit ?u"
    by (simp add: is_digit_def)
  have h9: "Num (citation_number cit1) \<noteq> parseInt ?u" by (simp add: pu)
  have h10: "\<not> padded_link [cit1] ''see [05]''" by code_simp
  from t1 h1 have r1: "renderAnswerWithLinks ?a [cit1] = Some (renderParts ?a [cit1])" by blast
  from t1 h2 have r2: "concat (map displayed (renderParts ?a [cit1])) = ?a" by blast
  from t1 h3 h4a h4b have r3: "renderParts (?l @ marker ''1'' @ ''.'') [cit1]
      = Span ?l # renderPart [cit1] (marker ''1'') # renderParts ''.'' [cit1]" by blast
  from t1 h3 h4a h4b h5 have "\<exists>c\<in>set [cit1]. Num (citation_number c) = parseInt ''1'' \<and>
      renderPart [cit1] (marker ''1'') = Anchor c (citation_number c)" by blast
  then have r4: "renderPart [cit1] (marker ''1'') = Anchor cit1 1" by (simp add: cit1_def)
  have s: "search_marker ''.'' = None" by code_simp
  from t4 s have r5: "renderParts ''.'' [cit1] = [Span ''.'']" by blast
  from h7 have "\<forall>c\<in>set [cit1]. Num (citation_number c) \<noteq> parseInt ''5''" by simp
  with t2 h6 have "renderPart [cit1] (marker ''5'') = Span (marker ''5'')" by blast
  then have r6: "renderPart [cit1] (marker ''5'') = Span ''[5]''" by (simp add: marker_def)
  from h9 have "\<forall>c\<in>set [cit1]. Num (citation_number c) \<noteq> parseInt ?u" by simp
  with t3 h8 have "renderPart [cit1] (marker ?u) = Span (marker ?u)" by blast
  then have r8: "renderPart [cit1] (marker ?u) = Span ''[9007199254740993]''"
    by (simp add: marker_def)
  from t3 h10 have r9: "concat (map displayed (renderParts ''see [05]'' [cit1])) = ''see [05]''"
    by blast
  have "renderParts ?a [cit1] = renderParts (?l @ marker ''1'' @ ''.'') [cit1]"
    by (simp add: marker_def)
  also have "\<dots> = [Span ?l, Anchor cit1 1, Span ''.'']" by (simp only: r3 r4 r5)
  finally have rp: "renderParts ?a [cit1] = [Span ?l, Anchor cit1 1, Span ''.'']" .
  from r1 have r7: "renderAnswerWithLinks ?a [cit1] = Some [Span ?l, Anchor cit1 1, Span ''.'']"
    by (simp only: rp)
  show ?thesis by (intro conjI b0 h1 h2 h3 h4a h4b h5 h7 h9 r7 r2 r6 r8 h10 r9)
qed

text \<open>
  Exact reconstruction fails on the code for a resolved marker with a leading zero: the
  answer \<open>[01]\<close> with a citation numbered 1 is displayed as \<open>[1]\<close>.
\<close>

theorem leading_zero_marker_counterexample:
  "\<bar>citation_number cit1\<bar> < 2 ^ 53 \<and> citation_number cit1 = 1 \<and>
   padded_link [cit1] ''[01]'' \<and>
   renderAnswerWithLinks ''[01]'' [cit1] = Some [Span [], Anchor cit1 1, Span []] \<and>
   concat (map displayed [Span [], Anchor cit1 1, Span []]) = ''[1]'' \<and>
   concat (map displayed [Span [], Anchor cit1 1, Span []]) \<noteq> ''[01]''"
  by code_simp

end
